theory Spec2Isabelle
  imports Main "HOL-Library.Word" "HOL-Library.Multiset"
begin

unbundle bit_operations_syntax

section \<open>Shared vocabulary: Go errors and run-time panics\<close>

text \<open>
  Go error values that occur in the two packages. \<open>EOF\<close> is \<open>io.EOF\<close>,
  \<open>ErrInvalidFingerprint\<close> the package variable of \<open>chromaprint\<close>,
  \<open>CorruptInputError\<close> the error type of \<open>encoding/base64\<close> (its offset payload is
  not modelled), \<open>ReadFailure\<close> any other error a block reader may return, and
  \<open>Wrap e msg\<close> the value built by \<open>errors.Wrap(e, msg)\<close> of \<open>github.com/pkg/errors\<close>.
  \<open>Cause\<close> is \<open>errors.Cause\<close>: it strips the wrappers, and the kind of an error is its
  cause (the repository's own \<open>vfs.IsLocked\<close> compares \<open>errors.Cause(err)\<close> in the same way).
\<close>

datatype error =
    EOF
  | ErrInvalidFingerprint
  | CorruptInputError
  | ReadFailure string
  | Wrap error string

fun Cause :: "error \<Rightarrow> error" where
  "Cause (Wrap e msg) = Cause e"
| "Cause e = e"

text \<open>
  A run-time panic is not an error value: it unwinds the call. Every function that can
  panic returns \<open>panic + 'a\<close>, with \<open>Inl\<close> for the panic.
\<close>

datatype panic = NilDereference | SliceBoundsOutOfRange | IndexOutOfRange

section \<open>Package index: items and the item buffer\<close>

type_synonym uint32 = "32 word"

record Item =
  Term :: uint32
  DocID :: uint32

text \<open>
  \<open>numDocs\<close> is a Go \<open>int\<close>, taken as the 64-bit two's complement integer of the
  common platforms: \<open>+ 1\<close> and \<open>- 1\<close> wrap, and \<open>numDocs > 0\<close> is the signed
  comparison \<open>0 <s numDocs\<close>.
\<close>

record ItemBuffer =
  numDocs :: "64 word"
  minDocID :: uint32
  maxDocID :: uint32
  items :: "Item list"

definition empty_buffer :: ItemBuffer where
  "empty_buffer = \<lparr>numDocs = 0, minDocID = 0, maxDocID = 0, items = []\<rparr>"

definition NumDocs :: "ItemBuffer \<Rightarrow> 64 word" where
  "NumDocs ib = numDocs ib"

definition NumItems :: "ItemBuffer \<Rightarrow> nat" where
  "NumItems ib = length (items ib)"

definition MinDocID :: "ItemBuffer \<Rightarrow> uint32" where
  "MinDocID ib = minDocID ib"

definition MaxDocID :: "ItemBuffer \<Rightarrow> uint32" where
  "MaxDocID ib = maxDocID ib"

definition Empty :: "ItemBuffer \<Rightarrow> bool" where
  "Empty ib = (length (items ib) = 0)"

definition Reset :: "ItemBuffer \<Rightarrow> ItemBuffer" where
  "Reset ib = ib\<lparr>numDocs := 0, minDocID := 0, maxDocID := 0, items := take 0 (items ib)\<rparr>"

definition Add :: "ItemBuffer \<Rightarrow> uint32 \<Rightarrow> uint32 list \<Rightarrow> ItemBuffer" where
  "Add ib docID terms =
     (let ib1 = ib\<lparr>numDocs := numDocs ib + 1\<rparr>;
          ib2 = (if numDocs ib1 = 1 \<or> minDocID ib1 > docID
                 then ib1\<lparr>minDocID := docID\<rparr> else ib1);
          ib3 = (if numDocs ib2 = 1 \<or> maxDocID ib2 < docID
                 then ib2\<lparr>maxDocID := docID\<rparr> else ib2)
      in ib3\<lparr>items := items ib3 @ map (\<lambda>term. \<lparr>Term = term, DocID = docID\<rparr>) terms\<rparr>)"

text \<open>
  The rescan loop of \<open>Delete\<close> (lines 97 to 104), on the pair (minDocID, maxDocID).
\<close>

fun rescan :: "Item list \<Rightarrow> uint32 \<times> uint32 \<Rightarrow> uint32 \<times> uint32" where
  "rescan [] (mn, mx) = (mn, mx)"
| "rescan (item # rest) (mn, mx) =
     rescan rest (if DocID item < mn then DocID item else mn,
                  if DocID item > mx then DocID item else mx)"

text \<open>
  \<open>Delete\<close> returns its boolean and the buffer after the call. The in-place
  compaction loop leaves in \<open>items[:n]\<close> the items whose DocID differs, in order; when
  \<open>n = len(items)\<close> every item was written onto itself and the buffer is unchanged.
\<close>

definition Delete :: "ItemBuffer \<Rightarrow> uint32 \<Rightarrow> bool \<times> ItemBuffer" where
  "Delete ib docID =
     (if docID < minDocID ib \<or> docID > maxDocID ib then (False, ib)
      else
        let kept = filter (\<lambda>item. DocID item \<noteq> docID) (items ib);
            n = length kept
        in if n = length (items ib) then (False, ib)
           else
             let ib1 = ib\<lparr>items := kept, numDocs := numDocs ib - 1\<rparr>
             in if docID = minDocID ib1 \<or> docID = maxDocID ib1 then
                  let ib2 = ib1\<lparr>minDocID := 0, maxDocID := 0\<rparr>
                  in if 0 <s numDocs ib2 then
                       let (mn, mx) = rescan (items ib2) (0xFFFFFFFF, maxDocID ib2)
                       in (True, ib2\<lparr>minDocID := mn, maxDocID := mx\<rparr>)
                     else (True, ib2)
                else (True, ib1))"

text \<open>
  The operations a caller can apply to a buffer, and the buffer reached from the empty
  one by a sequence of them.
\<close>

datatype buffer_op = OpAdd uint32 "uint32 list" | OpDelete uint32

fun apply_op :: "ItemBuffer \<Rightarrow> buffer_op \<Rightarrow> ItemBuffer" where
  "apply_op ib (OpAdd docID terms) = Add ib docID terms"
| "apply_op ib (OpDelete docID) = snd (Delete ib docID)"

definition run_ops :: "buffer_op list \<Rightarrow> ItemBuffer" where
  "run_ops ops = foldl apply_op empty_buffer ops"

subsection \<open>Sorting for reading\<close>

text \<open>
  The comparison closure that \<open>Reader\<close> passes to \<open>sort.Slice\<close>.
\<close>

definition item_less :: "Item \<Rightarrow> Item \<Rightarrow> bool" where
  "item_less a b = (Term a < Term b \<or> (Term a = Term b \<and> DocID a < DocID b))"

text \<open>
  \<open>sort.Slice\<close> belongs to the library \<open>go4.org/sort\<close>, not to this repository. It is
  modelled by its contract: the slice is rearranged into ascending order of the given
  \<open>less\<close>. The model inserts each element before the first element it is less than;
  for \<open>item_less\<close>, under which two items that are not ordered are the same item, every
  correct sort returns this same list.
\<close>

fun sort_insert :: "('a \<Rightarrow> 'a \<Rightarrow> bool) \<Rightarrow> 'a \<Rightarrow> 'a list \<Rightarrow> 'a list" where
  "sort_insert lt x [] = [x]"
| "sort_insert lt x (y # ys) =
     (if lt x y then x # y # ys else y # sort_insert lt x ys)"

definition sort_Slice :: "('a \<Rightarrow> 'a \<Rightarrow> bool) \<Rightarrow> 'a list \<Rightarrow> 'a list" where
  "sort_Slice lt xs = foldr (sort_insert lt) xs []"

section \<open>Package index: block readers\<close>

text \<open>
  A value of the interface \<open>ItemReader\<close>: the nil interface value, an
  \<open>itemBufferReader\<close> (its buffer and position), a \<open>multiItemReader\<close> (its two source
  readers and its two pending blocks), or a reader implemented outside this file (a
  segment file, say), given by the responses it will hand out, one per call, before it
  signals end-of-stream.

  The \<open>itemBufferReader\<close> holds the buffer as it is while the reader is drained; the
  repository requires that nobody mutates the buffer during that time. The 1024-slot
  array \<open>buf\<close> of a \<open>multiItemReader\<close> only carries the output block of one call: a
  caller holds the returned block as its own pending block and calls again only when
  that block is used up, and \<open>ReadAllItems\<close> copies it before the next call, so the
  block is modelled as a value and \<open>buf\<close> by its length \<open>bufsize\<close>.
\<close>

datatype ItemReader =
    nilReader
  | itemBufferReader ItemBuffer nat
  | multiItemReader ItemReader ItemReader "Item list" "Item list"
  | externalReader "(Item list \<times> error option) list"

type_synonym block_result = "(Item list \<times> error option) \<times> ItemReader"

definition bufsize :: nat where
  "bufsize = 1024"

text \<open>
  The comparison of \<open>multiItemReader.ReadBlock\<close> (line 196), as written.
\<close>

definition takes_left :: "Item \<Rightarrow> Item \<Rightarrow> bool" where
  "takes_left v1 v2 = (Term v1 \<le> Term v2 \<or> (Term v1 = Term v2 \<and> DocID v1 \<le> DocID v2))"

text \<open>
  The merge loop of lines 193 to 211: \<open>n\<close> is the number of slots of \<open>buf\<close> still free.
  It returns the items written and the two pending blocks after the loop. The loop is
  entered with both blocks non-empty and left as soon as one is empty, so \<open>block[0]\<close>
  is always in range; the last equation is never reached from \<open>ReadBlock\<close>.
\<close>

fun merge_loop :: "nat \<Rightarrow> Item list \<Rightarrow> Item list \<Rightarrow> Item list \<times> Item list \<times> Item list" where
  "merge_loop n (v1 # block1) (v2 # block2) =
     (if n = 0 then ([], v1 # block1, v2 # block2)
      else if takes_left v1 v2 then
        (if length block1 = 0 then ([v1], block1, v2 # block2)
         else let (out, b1, b2) = merge_loop (n - 1) block1 (v2 # block2)
              in (v1 # out, b1, b2))
      else
        (if length block2 = 0 then ([v2], v1 # block1, block2)
         else let (out, b1, b2) = merge_loop (n - 1) (v1 # block1) block2
              in (v2 # out, b1, b2)))"
| "merge_loop n block1 block2 = ([], block1, block2)"

text \<open>
  Lines 191 to 229: what one call hands out once both sides have been refilled.
\<close>

definition emit :: "Item list \<Rightarrow> Item list \<Rightarrow> (Item list \<times> error option) \<times> Item list \<times> Item list" where
  "emit block1 block2 =
     (if length block1 > 0 \<and> length block2 > 0 then
        let (out, b1, b2) = merge_loop bufsize block1 block2 in ((out, None), b1, b2)
      else if length block1 > 0 then ((block1, None), take 0 block1, block2)
      else if length block2 > 0 then ((block2, None), block1, take 0 block2)
      else (([], Some EOF), block1, block2))"

text \<open>
  Lines 170 to 177 (and 181 to 188): what a side becomes after its source was read. The
  result is the error to return at once, if any, then the side's source and block.
\<close>

fun refilled :: "panic + block_result \<Rightarrow> panic + (error option \<times> ItemReader \<times> Item list)" where
  "refilled (Inl p) = Inl p"
| "refilled (Inr ((block, None), reader)) = Inr (None, reader, block)"
| "refilled (Inr ((block, Some err), reader)) =
     (if err \<noteq> EOF then Inr (Some err, reader, block) else Inr (None, nilReader, block))"

fun ReadBlock :: "ItemReader \<Rightarrow> panic + block_result" where
  "ReadBlock nilReader = Inl NilDereference"
| "ReadBlock (itemBufferReader ib pos) =
     (if pos \<ge> length (items ib) then Inr (([], Some EOF), itemBufferReader ib pos)
      else let its = drop pos (items ib)
           in Inr ((its, None), itemBufferReader ib (pos + length its)))"
| "ReadBlock (externalReader script) =
     (case script of
        [] \<Rightarrow> Inr (([], Some EOF), externalReader [])
      | response # rest \<Rightarrow> Inr (response, externalReader rest))"
| "ReadBlock (multiItemReader reader1 reader2 block1 block2) =
     (case (if length block1 = 0 \<and> reader1 \<noteq> nilReader then refilled (ReadBlock reader1)
            else Inr (None, reader1, block1)) of
        Inl p \<Rightarrow> Inl p
      | Inr (Some err, r1, b1) \<Rightarrow> Inr (([], Some err), multiItemReader r1 reader2 b1 block2)
      | Inr (None, r1, b1) \<Rightarrow>
          (case (if length block2 = 0 \<and> reader2 \<noteq> nilReader then refilled (ReadBlock reader2)
                 else Inr (None, reader2, block2)) of
             Inl p \<Rightarrow> Inl p
           | Inr (Some err, r2, b2) \<Rightarrow> Inr (([], Some err), multiItemReader r1 r2 b1 b2)
           | Inr (None, r2, b2) \<Rightarrow>
               (case emit b1 b2 of
                  (res, b1', b2') \<Rightarrow> Inr (res, multiItemReader r1 r2 b1' b2'))))"

text \<open>
  \<open>Reader\<close> sorts the buffer's items in place and returns a reader at position 0 of the
  buffer; the result is the buffer after the call and the reader.
\<close>

definition Reader :: "ItemBuffer \<Rightarrow> ItemBuffer \<times> ItemReader" where
  "Reader ib =
     (let ib' = ib\<lparr>items := sort_Slice item_less (items ib)\<rparr>
      in (ib', itemBufferReader ib' 0))"

text \<open>
  The case for two readers of \<open>MergeItemReaders\<close> (lines 141 to 150). A fresh
  \<open>multiItemReader\<close> has nil pending blocks.
\<close>

definition merge_pair :: "ItemReader \<Rightarrow> ItemReader \<Rightarrow> ItemReader" where
  "merge_pair r0 r1 =
     (if r0 = nilReader then r1
      else if r1 = nilReader then r0
      else multiItemReader r0 r1 [] [])"

text \<open>
  \<open>MergeItemReaders\<close>. Its last line calls itself on the two readers just built, which
  is the case for two readers: \<open>merge_pair\<close>.
\<close>

function MergeItemReaders :: "ItemReader list \<Rightarrow> ItemReader" where
  "MergeItemReaders readers =
     (if length readers = 0 then nilReader
      else if length readers = 1 then readers ! 0
      else if length readers = 2 then merge_pair (readers ! 0) (readers ! 1)
      else merge_pair (MergeItemReaders (take (length readers div 2) readers))
                      (MergeItemReaders (drop (length readers div 2) readers)))"
  by pat_completeness auto
termination
proof (relation "measure length")
  fix readers :: "ItemReader list"
  assume "length readers \<noteq> 0" "length readers \<noteq> 1" "length readers \<noteq> 2"
  then have "0 < length readers div 2" "length readers div 2 < length readers"
    by arith+
  then show "(take (length readers div 2) readers, readers) \<in> measure length"
    and "(drop (length readers div 2) readers, readers) \<in> measure length"
    by simp_all
qed simp

text \<open>
  A bound on what a reader can still hand out; it decreases with every block read
  without an error, which is why the loop of \<open>ReadAllItems\<close> ends on every reader of
  the model.
\<close>

fun pending :: "ItemReader \<Rightarrow> nat" where
  "pending nilReader = 0"
| "pending (itemBufferReader ib pos) = length (items ib) - pos"
| "pending (multiItemReader reader1 reader2 block1 block2) =
     pending reader1 + pending reader2 + length block1 + length block2"
| "pending (externalReader script) = length script + length (concat (map fst script))"

text \<open>
  One side of a \<open>multiItemReader\<close> at the start of a call: its source is read when
  the pending block is empty and the source is not nil.
\<close>

definition side :: "ItemReader \<Rightarrow> Item list \<Rightarrow> panic + (error option \<times> ItemReader \<times> Item list)" where
  "side reader block =
     (if length block = 0 \<and> reader \<noteq> nilReader then refilled (ReadBlock reader)
      else Inr (None, reader, block))"

subsection \<open>Every block read without an error makes progress\<close>

lemma merge_loop_length:
  "merge_loop n b1 b2 = (out, b1', b2') \<Longrightarrow> length out + length b1' + length b2' = length b1 + length b2"
  by (induction n b1 b2 arbitrary: out b1' b2' rule: merge_loop.induct)
     (auto split: if_splits prod.splits)

lemma merge_loop_nonempty:
  "merge_loop n b1 b2 = (out, b1', b2') \<Longrightarrow> 0 < n \<Longrightarrow> b1 \<noteq> [] \<Longrightarrow> b2 \<noteq> [] \<Longrightarrow> out \<noteq> []"
  by (cases b1; cases b2) (auto split: if_splits prod.splits)

lemma emit_pending:
  assumes "emit b1 b2 = ((out, e), b1', b2')"
  shows "length out + length b1' + length b2' = length b1 + length b2 \<and> (e = None \<longrightarrow> out \<noteq> [])"
proof (cases "b1 \<noteq> [] \<and> b2 \<noteq> []")
  case True
  then have ml: "merge_loop bufsize b1 b2 = (out, b1', b2')" and "e = None"
    using assms by (auto simp: emit_def split: prod.splits)
  then show ?thesis
    using merge_loop_length[OF ml] merge_loop_nonempty[OF ml] True by (simp add: bufsize_def)
next
  case False
  then show ?thesis using assms by (auto simp: emit_def split: if_splits)
qed

lemma refilled_pending:
  assumes "\<And>blk e r'. res = Inr ((blk, e), r') \<Longrightarrow> pending r' + length blk \<le> P"
      and "refilled res = Inr (e, r1, b1)"
  shows "pending r1 + length b1 \<le> P"
  using assms by (cases res rule: refilled.cases) (auto split: if_splits)

lemma ReadBlock_multi:
  "ReadBlock (multiItemReader reader1 reader2 block1 block2) =
     (case side reader1 block1 of
        Inl p \<Rightarrow> Inl p
      | Inr (Some err, r1, b1) \<Rightarrow> Inr (([], Some err), multiItemReader r1 reader2 b1 block2)
      | Inr (None, r1, b1) \<Rightarrow>
          (case side reader2 block2 of
             Inl p \<Rightarrow> Inl p
           | Inr (Some err, r2, b2) \<Rightarrow> Inr (([], Some err), multiItemReader r1 r2 b1 b2)
           | Inr (None, r2, b2) \<Rightarrow>
               (case emit b1 b2 of
                  (res, b1', b2') \<Rightarrow> Inr (res, multiItemReader r1 r2 b1' b2'))))"
  by (simp only: side_def ReadBlock.simps)

lemma side_pending:
  assumes "\<And>blk e r'. ReadBlock r = Inr ((blk, e), r') \<Longrightarrow> pending r' + length blk \<le> pending r"
      and "side r b = Inr (e, r1, b1)"
  shows "pending r1 + length b1 \<le> pending r + length b"
proof (cases "length b = 0 \<and> r \<noteq> nilReader")
  case True
  then have "refilled (ReadBlock r) = Inr (e, r1, b1)"
    using assms(2) by (simp add: side_def)
  then have "pending r1 + length b1 \<le> pending r"
    by (rule refilled_pending[rotated]) (rule assms(1))
  then show ?thesis by simp
next
  case False
  then show ?thesis using assms(2) by (auto simp: side_def)
qed

lemma ReadBlock_pending:
  "ReadBlock r = Inr ((blk, e), r') \<Longrightarrow>
     pending r' + length blk \<le> pending r \<and> (e = None \<longrightarrow> pending r' < pending r)"
proof (induction r arbitrary: blk e r')
  case nilReader
  then show ?case by simp
next
  case (itemBufferReader ib pos)
  then show ?case by (auto split: if_splits simp: Let_def)
next
  case (externalReader script)
  then show ?case by (cases script) auto
next
  case (multiItemReader r1 r2 b1 b2)
  have s1: "side r1 b = Inr (e, r, c) \<Longrightarrow> pending r + length c \<le> pending r1 + length b" for b e r c
    using multiItemReader.IH(1) by (intro side_pending[of r1 b e r c]) blast+
  have s2: "side r2 b = Inr (e, r, c) \<Longrightarrow> pending r + length c \<le> pending r2 + length b" for b e r c
    using multiItemReader.IH(2) by (intro side_pending[of r2 b e r c]) blast+
  obtain e1 r1' b1' where side1: "side r1 b1 = Inr (e1, r1', b1')"
    using multiItemReader.prems unfolding ReadBlock_multi
    by (cases "side r1 b1") auto
  have le1: "pending r1' + length b1' \<le> pending r1 + length b1"
    using s1 side1 by blast
  note rb = multiItemReader.prems[unfolded ReadBlock_multi]
  show ?case
  proof (cases e1)
    case (Some err)
    with rb side1 have "blk = []" "r' = multiItemReader r1' r2 b1' b2" "e = Some err"
      by simp_all
    then show ?thesis using le1 by simp
  next
    case None
    note e1 = None
    obtain e2 r2' b2' where side2: "side r2 b2 = Inr (e2, r2', b2')"
      using rb side1 e1 by (cases "side r2 b2") auto
    have le2: "pending r2' + length b2' \<le> pending r2 + length b2"
      using s2 side2 by blast
    show ?thesis
    proof (cases e2)
      case (Some err)
      with rb side1 e1 side2 have "blk = []" "r' = multiItemReader r1' r2' b1' b2'" "e = Some err"
        by simp_all
      then show ?thesis using le1 le2 by simp
    next
      case None
      obtain res c1 c2 where em: "emit b1' b2' = (res, c1, c2)"
        by (cases "emit b1' b2'") auto
      have res: "res = (blk, e)" and r': "r' = multiItemReader r1' r2' c1 c2"
        using rb side1 e1 side2 None em by simp_all
      from emit_pending[of b1' b2' blk e c1 c2] em res
      have len: "length blk + length c1 + length c2 = length b1' + length b2'"
        and ne: "e = None \<longrightarrow> blk \<noteq> []" by simp_all
      have "e = None \<longrightarrow> 0 < length blk" using ne by simp
      then show ?thesis using le1 le2 len unfolding r' pending.simps by linarith
    qed
  qed
qed


text \<open>
  \<open>ReadAllItems\<close>: the loop appends each block and stops at the first error, which it
  returns unless it is \<open>io.EOF\<close>. The result is the pair (items, err).
\<close>

function ReadAllItems_loop :: "ItemReader \<Rightarrow> Item list \<Rightarrow> panic + (Item list \<times> error option)" where
  "ReadAllItems_loop reader acc =
     (case ReadBlock reader of
        Inl p \<Rightarrow> Inl p
      | Inr ((block, err), reader') \<Rightarrow>
          (case err of
             Some e \<Rightarrow> Inr (acc @ block, if e = EOF then None else Some e)
           | None \<Rightarrow> ReadAllItems_loop reader' (acc @ block)))"
  by pat_completeness auto
termination
  by (relation "measure (\<lambda>(reader, acc). pending reader)") (auto dest: ReadBlock_pending)

definition ReadAllItems :: "ItemReader \<Rightarrow> panic + (Item list \<times> error option)" where
  "ReadAllItems reader = ReadAllItems_loop reader []"

section \<open>Package chromaprint: the fingerprint decoder\<close>

type_synonym byte = "8 word"

text \<open>
  \<open>int8\<close>: the element type of the code arrays (the decoder adds them to an
  \<open>int8\<close> accumulator); \<open>+\<close> wraps, and the value is read in two's complement.
\<close>

type_synonym int8 = "8 word"

record Fingerprint =
  Version :: int
  Hashes :: "uint32 list"

subsection \<open>The packed code arrays\<close>

text \<open>
  Modelled from the spec: the helpers \<open>unpackInt3Array\<close> and \<open>unpackInt5Array\<close>, which
  \<open>unpackFingerprint\<close> calls, are not among the source files. The spec has them read the
  data as one bit stream, most significant bit of each byte first, and extract
  successive codes of the given width, each most significant bit first, until the
  stream is exhausted: \<open>N\<close> codes of \<open>W\<close> bits occupy \<open>ceil(N * W / 8)\<close> bytes, so
  \<open>n\<close> bytes hold \<open>8 * n div W\<close> whole codes.
\<close>

definition bits_of_byte :: "byte \<Rightarrow> bool list" where
  "bits_of_byte b = map (bit b) [7, 6, 5, 4, 3, 2, 1, 0]"

definition bitstream :: "byte list \<Rightarrow> bool list" where
  "bitstream data = concat (map bits_of_byte data)"

definition code_value :: "bool list \<Rightarrow> nat" where
  "code_value bs = foldl (\<lambda>acc b. 2 * acc + (if b then 1 else 0)) 0 bs"

definition unpack :: "nat \<Rightarrow> byte list \<Rightarrow> int8 list" where
  "unpack width data =
     map (\<lambda>i. of_nat (code_value (take width (drop (i * width) (bitstream data)))))
         [0 ..< (8 * length data) div width]"

definition unpackInt3Array :: "byte list \<Rightarrow> int8 list" where
  "unpackInt3Array data = unpack 3 data"

definition unpackInt5Array :: "byte list \<Rightarrow> int8 list" where
  "unpackInt5Array data = unpack 5 data"

subsection \<open>unpackFingerprint\<close>

text \<open>
  \<open>binary.BigEndian.Uint32\<close> on the first four bytes; the caller has checked that
  there are four.
\<close>

definition BigEndian_Uint32 :: "byte list \<Rightarrow> uint32" where
  "BigEndian_Uint32 data =
     push_bit 24 (ucast (data ! 0)) OR push_bit 16 (ucast (data ! 1)) OR
     push_bit 8 (ucast (data ! 2)) OR ucast (data ! 3)"

text \<open>
  The first loop (lines 84 to 95 of the decoder): \<open>bi\<close> is the index of the code at the
  head of the list. The result is \<open>numValues\<close>, \<open>numExceptionalBits\<close> and the index at
  which the loop broke off, if it did.
\<close>

fun scan_bits :: "int8 list \<Rightarrow> nat \<Rightarrow> nat \<Rightarrow> nat \<Rightarrow> nat \<Rightarrow> nat \<times> nat \<times> nat option" where
  "scan_bits [] bi numValues numExceptionalBits totalValues =
     (numValues, numExceptionalBits, None)"
| "scan_bits (b # rest) bi numValues numExceptionalBits totalValues =
     (if b = 0 then
        (if numValues + 1 = totalValues then (numValues + 1, numExceptionalBits, Some bi)
         else scan_bits rest (bi + 1) (numValues + 1) numExceptionalBits totalValues)
      else if b = 7 then scan_bits rest (bi + 1) numValues (numExceptionalBits + 1) totalValues
      else scan_bits rest (bi + 1) numValues numExceptionalBits totalValues)"

text \<open>
  The loop of lines 107 to 112: every code 7 gets the next exceptional value added;
  \<open>ei\<close> indexes \<open>exceptionalBits\<close>, and an index out of range panics.
\<close>

fun add_exceptional :: "int8 list \<Rightarrow> int8 list \<Rightarrow> nat \<Rightarrow> panic + int8 list" where
  "add_exceptional [] exceptionalBits ei = Inr []"
| "add_exceptional (b # rest) exceptionalBits ei =
     (if b = 7 then
        (if ei < length exceptionalBits then
           (case add_exceptional rest exceptionalBits (ei + 1) of
              Inl p \<Rightarrow> Inl p
            | Inr rest' \<Rightarrow> Inr ((b + exceptionalBits ! ei) # rest'))
         else Inl IndexOutOfRange)
      else
        (case add_exceptional rest exceptionalBits ei of
           Inl p \<Rightarrow> Inl p
         | Inr rest' \<Rightarrow> Inr (b # rest')))"

text \<open>
  Lines 101 to 113. \<open>data[offset:]\<close> panics when \<open>offset\<close> exceeds \<open>len(data)\<close>. The
  result is a panic, an error to return, or the code array to go on with.
\<close>

definition resolve_exceptional :: "byte list \<Rightarrow> nat \<Rightarrow> nat \<Rightarrow> int8 list \<Rightarrow> panic + (error + int8 list)" where
  "resolve_exceptional data offset numExceptionalBits bits =
     (if numExceptionalBits > 0 then
        (if offset > length data then Inl SliceBoundsOutOfRange
         else
           let exceptionalBits = unpackInt5Array (drop offset data)
           in if length exceptionalBits \<noteq> numExceptionalBits then
                Inr (Inl (Wrap ErrInvalidFingerprint ''not enough data to decode exceptional bits''))
              else
                (case add_exceptional bits exceptionalBits 0 of
                   Inl p \<Rightarrow> Inl p
                 | Inr bits' \<Rightarrow> Inr (Inr bits')))
      else Inr (Inr bits))"

text \<open>
  The loop of lines 119 to 130 on \<open>hashes\<close>, \<open>hi\<close> and \<open>lastBit\<close>; an index of \<open>hashes\<close>
  out of range panics. \<open>uint(lastBit-1)\<close> extends the sign of the \<open>int8\<close> to 64 bits, and
  a shift of the 32-bit \<open>1\<close> by 32 or more gives 0.
\<close>

fun decode_hashes :: "int8 list \<Rightarrow> uint32 list \<Rightarrow> nat \<Rightarrow> int8 \<Rightarrow> panic + uint32 list" where
  "decode_hashes [] hashes hi lastBit = Inr hashes"
| "decode_hashes (b # rest) hashes hi lastBit =
     (if b = 0 then
        (if hi > 0 then
           (if hi < length hashes then
              decode_hashes rest (hashes[hi := (hashes ! hi) XOR (hashes ! (hi - 1))]) (hi + 1) 0
            else Inl IndexOutOfRange)
         else decode_hashes rest hashes (hi + 1) 0)
      else
        (let lastBit' = lastBit + b
         in if hi < length hashes then
              decode_hashes rest
                (hashes[hi := (hashes ! hi) OR push_bit (unat (scast (lastBit' - 1) :: 64 word)) 1])
                hi lastBit'
            else Inl IndexOutOfRange))"

text \<open>
  \<open>unpackFingerprint(data, fp)\<close>: \<open>fp\<close> is \<open>None\<close> for the nil pointer and \<open>Some\<close> of the
  pointed-to value otherwise. The result is a panic, or the returned error together
  with what \<open>fp\<close> points to after the call.
\<close>

definition unpackFingerprint :: "byte list \<Rightarrow> Fingerprint option \<Rightarrow> panic + (error option \<times> Fingerprint option)" where
  "unpackFingerprint data fp =
     (if length data < 4 then
        Inr (Some (Wrap ErrInvalidFingerprint ''encoded fingerprint is less than 4 bytes''), fp)
      else
        let header = BigEndian_Uint32 data;
            version = uint (drop_bit 24 header AND 0xff);
            totalValues = unat (header AND 0xffffff)
        in if totalValues = 0 then
             Inr (Some (Wrap ErrInvalidFingerprint ''fingerprint contains no items''), fp)
           else
             let bits0 = unpackInt3Array (drop 4 data);
                 (numValues, numExceptionalBits, broke) = scan_bits bits0 0 0 0 totalValues;
                 bits = (case broke of Some bi \<Rightarrow> take (bi + 1) bits0 | None \<Rightarrow> bits0);
                 offset = (case broke of Some bi \<Rightarrow> 4 + (length bits * 3 + 8) div 8 | None \<Rightarrow> 4)
             in if numValues \<noteq> totalValues then
                  Inr (Some (Wrap ErrInvalidFingerprint ''not enough data to decode normal bits''), fp)
                else
                  (case resolve_exceptional data offset numExceptionalBits bits of
                     Inl p \<Rightarrow> Inl p
                   | Inr (Inl err) \<Rightarrow> Inr (Some err, fp)
                   | Inr (Inr bits') \<Rightarrow>
                       (case fp of
                          None \<Rightarrow> Inr (None, fp)
                        | Some f \<Rightarrow>
                            (case decode_hashes bits' (replicate totalValues 0) 0 0 of
                               Inl p \<Rightarrow> Inl p
                             | Inr hashes \<Rightarrow>
                                 Inr (None, Some (f\<lparr>Version := version, Hashes := hashes\<rparr>))))))"

text \<open>
  \<open>ParseFingerprint\<close> returns the pair (pointer to the fingerprint, error);
  \<open>ValidateFingerprint\<close> its boolean.
\<close>

definition ParseFingerprint :: "byte list \<Rightarrow> panic + (Fingerprint option \<times> error option)" where
  "ParseFingerprint data =
     (case unpackFingerprint data (Some \<lparr>Version = 0, Hashes = []\<rparr>) of
        Inl p \<Rightarrow> Inl p
      | Inr (Some err, fp) \<Rightarrow> Inr (None, Some err)
      | Inr (None, fp) \<Rightarrow> Inr (fp, None))"

definition ValidateFingerprint :: "byte list \<Rightarrow> panic + bool" where
  "ValidateFingerprint data =
     (case unpackFingerprint data None of
        Inl p \<Rightarrow> Inl p
      | Inr (err, fp) \<Rightarrow> Inr (err = None))"

subsection \<open>The text form\<close>

text \<open>
  \<open>base64.RawURLEncoding.DecodeString\<close> belongs to Go's standard library
  (\<open>encoding/base64\<close>). It is modelled after the library's \<open>Decode\<close> and
  \<open>decodeQuantum\<close>: the input is read character by character into a quantum \<open>dbuf\<close>
  of up to four 6-bit values of the URL-safe alphabet of RFC 4648; a line feed or a
  carriage return is skipped; any other character outside the alphabet is a
  \<open>CorruptInputError\<close> (there is no padding character); a full quantum gives three
  bytes; at the end of the input a quantum of one value is a \<open>CorruptInputError\<close>, one
  of two or three values gives one or two bytes. With the error the library returns
  the bytes of the quanta completed before it, and so does the model. The offset that
  the error carries is not modelled.
\<close>

definition b64_alphabet :: string where
  "b64_alphabet = ''ABCDEFGHIJKLMNOPQRSTUVWXYZabcdefghijklmnopqrstuvwxyz0123456789-_''"

fun b64_index :: "char \<Rightarrow> string \<Rightarrow> nat option" where
  "b64_index c [] = None"
| "b64_index c (a # rest) =
     (if c = a then Some 0 else map_option Suc (b64_index c rest))"

text \<open>
  The end of \<open>decodeQuantum\<close>: the values of \<open>dbuf\<close>, zero where none was read, are
  packed into 24 bits, of which \<open>dlen - 1\<close> bytes are written.
\<close>

definition quantum_bytes :: "nat list \<Rightarrow> byte list" where
  "quantum_bytes dbuf =
     (let d = dbuf @ replicate 4 0;
          val = (push_bit 18 (of_nat (d ! 0)) OR push_bit 12 (of_nat (d ! 1)) OR
                 push_bit 6 (of_nat (d ! 2)) OR of_nat (d ! 3) :: 32 word)
      in take (length dbuf - 1) [ucast (drop_bit 16 val), ucast (drop_bit 8 val), ucast val])"

text \<open>
  The loop over the input: the characters left, the quantum read so far (fewer than
  four values) and the bytes written so far.
\<close>

fun decode_quanta :: "string \<Rightarrow> nat list \<Rightarrow> byte list \<Rightarrow> byte list \<times> error option" where
  "decode_quanta [] dbuf dst =
     (if length dbuf = 0 then (dst, None)
      else if length dbuf = 1 then (dst, Some CorruptInputError)
      else (dst @ quantum_bytes dbuf, None))"
| "decode_quanta (c # src) dbuf dst =
     (case b64_index c b64_alphabet of
        Some v \<Rightarrow>
          (if length dbuf = 3 then decode_quanta src [] (dst @ quantum_bytes (dbuf @ [v]))
           else decode_quanta src (dbuf @ [v]) dst)
      | None \<Rightarrow>
          (if c = CHR 0x0A \<or> c = CHR 0x0D then decode_quanta src dbuf dst
           else (dst, Some CorruptInputError)))"

definition RawURLEncoding_DecodeString :: "string \<Rightarrow> byte list \<times> error option" where
  "RawURLEncoding_DecodeString s = decode_quanta s [] []"

definition DecodeFingerprintString :: "string \<Rightarrow> byte list \<times> error option" where
  "DecodeFingerprintString str =
     (if length str = 0 then ([], Some ErrInvalidFingerprint)
      else RawURLEncoding_DecodeString str)"

definition ParseFingerprintString :: "string \<Rightarrow> panic + (Fingerprint option \<times> error option)" where
  "ParseFingerprintString str =
     (case DecodeFingerprintString str of
        (data, Some err) \<Rightarrow> Inr (None, Some (Wrap err ''decoding failed''))
      | (data, None) \<Rightarrow> ParseFingerprint data)"

definition ValidateFingerprintString :: "string \<Rightarrow> panic + bool" where
  "ValidateFingerprintString str =
     (case DecodeFingerprintString str of
        (data, Some err) \<Rightarrow> Inr False
      | (data, None) \<Rightarrow> ValidateFingerprint data)"

section \<open>Lemmas on sorting and on the buffer reader\<close>

text \<open>
  The order of the postings: term ascending, then docID ascending.
\<close>

definition item_le :: "Item \<Rightarrow> Item \<Rightarrow> bool" where
  "item_le a b = (Term a < Term b \<or> (Term a = Term b \<and> DocID a \<le> DocID b))"

lemma item_le_trans: "item_le a b \<Longrightarrow> item_le b c \<Longrightarrow> item_le a c"
  by (auto simp: item_le_def)

lemma item_less_le: "item_less a b \<Longrightarrow> item_le a b"
  by (auto simp: item_le_def item_less_def)

lemma not_item_less_le: "\<not> item_less a b \<Longrightarrow> item_le b a"
  by (auto simp: item_le_def item_less_def)

lemma set_sort_insert: "set (sort_insert lt x ys) = insert x (set ys)"
  by (induction ys) auto

lemma mset_sort_insert: "mset (sort_insert lt x ys) = add_mset x (mset ys)"
  by (induction ys) auto

lemma sorted_sort_insert:
  "sorted_wrt item_le ys \<Longrightarrow> sorted_wrt item_le (sort_insert item_less x ys)"
proof (induction ys)
  case Nil
  then show ?case by simp
next
  case (Cons y ys)
  show ?case
  proof (cases "item_less x y")
    case True
    then have "item_le x y" by (rule item_less_le)
    then have "\<forall>z\<in>set ys. item_le x z"
      using Cons.prems by (auto intro: item_le_trans)
    then show ?thesis using True Cons.prems \<open>item_le x y\<close> by simp
  next
    case False
    then have "item_le y x" by (rule not_item_less_le)
    then show ?thesis using False Cons by (simp add: set_sort_insert)
  qed
qed

lemma sorted_sort_Slice: "sorted_wrt item_le (sort_Slice item_less xs)"
  unfolding sort_Slice_def by (induction xs) (simp_all add: sorted_sort_insert)

lemma mset_sort_Slice: "mset (sort_Slice lt xs) = mset xs"
  unfolding sort_Slice_def by (induction xs) (simp_all add: mset_sort_insert)

lemma ReadAllItems_buffer_reader:
  "ReadAllItems (itemBufferReader ib 0) = Inr (items ib, None)"
proof (cases "items ib")
  case Nil
  then show ?thesis by (simp add: ReadAllItems_def)
next
  case (Cons x xs)
  then show ?thesis by (simp add: ReadAllItems_def Let_def)
qed

section \<open>Lemmas on the item buffer\<close>

lemma Add_items: "items (Add ib d ts) = items ib @ map (\<lambda>t. \<lparr>Term = t, DocID = d\<rparr>) ts"
  by (simp add: Add_def Let_def)

lemma Add_numDocs: "numDocs (Add ib d ts) = numDocs ib + 1"
  by (simp add: Add_def Let_def)

lemma length_filter_all: "(length (filter P xs) = length xs) = (\<forall>x\<in>set xs. P x)"
proof (induction xs)
  case Nil
  then show ?case by simp
next
  case (Cons x xs)
  have "length (filter P xs) \<noteq> Suc (length xs)"
    using length_filter_le[of P xs] by linarith
  then show ?case using Cons by auto
qed

lemma Delete_items:
  "items (snd (Delete ib d)) =
     (if fst (Delete ib d) then filter (\<lambda>item. DocID item \<noteq> d) (items ib) else items ib)"
  by (simp add: Delete_def Let_def split: prod.splits)

lemma Delete_numDocs:
  "numDocs (snd (Delete ib d)) = (if fst (Delete ib d) then numDocs ib - 1 else numDocs ib)"
  by (simp add: Delete_def Let_def split: prod.splits)

lemma Delete_fst:
  "fst (Delete ib d) =
     (\<not> (d < minDocID ib \<or> d > maxDocID ib) \<and> d \<in> DocID ` set (items ib))"
proof -
  have "(\<forall>x\<in>set (items ib). DocID x \<noteq> d) = (d \<notin> DocID ` set (items ib))"
    by force
  then show ?thesis
    by (simp add: Delete_def Let_def length_filter_all split: prod.splits)
qed

text \<open>
  The invariant behind \<open>NumDocs\<close>: the counter is \<open>k\<close> (as a 64-bit integer) and at
  most \<open>k\<close> distinct docIDs are held.
\<close>

definition counted :: "nat \<Rightarrow> ItemBuffer \<Rightarrow> bool" where
  "counted k ib = (numDocs ib = of_nat k \<and> card (DocID ` set (items ib)) \<le> k)"

lemma counted_Add: "counted k ib \<Longrightarrow> counted (Suc k) (Add ib d ts)"
proof -
  assume c: "counted k ib"
  have "DocID ` set (items (Add ib d ts)) \<subseteq> insert d (DocID ` set (items ib))"
    by (auto simp: Add_items)
  then have "card (DocID ` set (items (Add ib d ts))) \<le> card (insert d (DocID ` set (items ib)))"
    by (intro card_mono) simp_all
  also have "\<dots> \<le> Suc (card (DocID ` set (items ib)))"
    by (simp add: card_insert_le_m1 card_insert_if)
  finally show ?thesis using c by (simp add: counted_def Add_numDocs)
qed

lemma counted_Delete:
  assumes "counted k ib"
  shows "\<exists>k'\<le>k. counted k' (snd (Delete ib d))"
proof (cases "fst (Delete ib d)")
  case False
  then have "counted k (snd (Delete ib d))"
    using assms by (simp add: counted_def Delete_items Delete_numDocs)
  then show ?thesis by blast
next
  case True
  then have mem: "d \<in> DocID ` set (items ib)" by (simp add: Delete_fst)
  have eq: "DocID ` set (items (snd (Delete ib d))) = DocID ` set (items ib) - {d}"
    using True by (auto simp: Delete_items)
  have less: "card (DocID ` set (items ib) - {d}) < card (DocID ` set (items ib))"
    using mem by (intro card_Diff1_less) simp_all
  have "card (DocID ` set (items ib)) \<le> k"
    using assms by (simp add: counted_def)
  with less have "0 < k" and "card (DocID ` set (items (snd (Delete ib d)))) \<le> k - 1"
    unfolding eq by linarith+
  moreover have "numDocs (snd (Delete ib d)) = of_nat (k - 1)"
    using assms True \<open>0 < k\<close> by (simp add: counted_def Delete_numDocs)
  ultimately have "counted (k - 1) (snd (Delete ib d))" by (simp add: counted_def)
  then show ?thesis by (intro exI[of _ "k - 1"]) simp
qed

lemma counted_run_ops: "\<exists>k\<le>length ops. counted k (run_ops ops)"
proof (induction ops rule: rev_induct)
  case Nil
  then show ?case by (simp add: run_ops_def counted_def empty_buffer_def)
next
  case (snoc op ops)
  then obtain k where k: "k \<le> length ops" "counted k (run_ops ops)" by blast
  have step: "run_ops (ops @ [op]) = apply_op (run_ops ops) op"
    by (simp add: run_ops_def)
  show ?case
  proof (cases op)
    case (OpAdd d ts)
    then show ?thesis using k counted_Add[OF k(2), of d ts] step
      by (intro exI[of _ "Suc k"]) simp
  next
    case (OpDelete d)
    from counted_Delete[OF k(2), of d] obtain k' where "k' \<le> k" "counted k' (snd (Delete (run_ops ops) d))"
      by blast
    then show ?thesis using k step OpDelete by (intro exI[of _ k']) simp
  qed
qed

text \<open>
  A sequence of operations, applied from a given buffer, in which every Add brings at
  least one term and a docID that the buffer does not hold at that time.
\<close>

fun adds_fresh :: "ItemBuffer \<Rightarrow> buffer_op list \<Rightarrow> bool" where
  "adds_fresh ib [] = True"
| "adds_fresh ib (op # ops) =
     ((case op of
         OpAdd docID terms \<Rightarrow> terms \<noteq> [] \<and> docID \<notin> DocID ` set (items ib)
       | OpDelete docID \<Rightarrow> True)
      \<and> adds_fresh (apply_op ib op) ops)"

definition counted_exactly :: "nat \<Rightarrow> ItemBuffer \<Rightarrow> bool" where
  "counted_exactly k ib = (numDocs ib = of_nat k \<and> card (DocID ` set (items ib)) = k)"

lemma counted_exactly_Add:
  assumes "counted_exactly k ib" and "ts \<noteq> []" and "d \<notin> DocID ` set (items ib)"
  shows "counted_exactly (Suc k) (Add ib d ts)"
proof -
  have "DocID ` set (items (Add ib d ts)) = insert d (DocID ` set (items ib))"
    using assms(2) by (cases ts) (auto simp: Add_items image_iff)
  then have "card (DocID ` set (items (Add ib d ts))) = Suc (card (DocID ` set (items ib)))"
    using assms(3) by simp
  then show ?thesis using assms(1) by (simp add: counted_exactly_def Add_numDocs)
qed

lemma counted_exactly_Delete:
  assumes "counted_exactly k ib"
  shows "\<exists>k'\<le>k. counted_exactly k' (snd (Delete ib d))"
proof (cases "fst (Delete ib d)")
  case False
  then have "counted_exactly k (snd (Delete ib d))"
    using assms by (simp add: counted_exactly_def Delete_items Delete_numDocs)
  then show ?thesis by blast
next
  case True
  then have mem: "d \<in> DocID ` set (items ib)" by (simp add: Delete_fst)
  have eq: "DocID ` set (items (snd (Delete ib d))) = DocID ` set (items ib) - {d}"
    using True by (auto simp: Delete_items)
  have c: "card (DocID ` set (items ib) - {d}) = card (DocID ` set (items ib)) - 1"
    using mem by simp
  have pos: "0 < card (DocID ` set (items ib))"
    using mem by (auto simp: card_gt_0_iff)
  have k: "card (DocID ` set (items ib)) = k"
    using assms by (simp add: counted_exactly_def)
  have "numDocs (snd (Delete ib d)) = of_nat (k - 1)"
    using assms True pos k by (simp add: counted_exactly_def Delete_numDocs)
  moreover have "card (DocID ` set (items (snd (Delete ib d)))) = k - 1"
    unfolding eq c k ..
  ultimately have "counted_exactly (k - 1) (snd (Delete ib d))"
    by (simp add: counted_exactly_def)
  then show ?thesis by (intro exI[of _ "k - 1"]) simp
qed

lemma counted_exactly_foldl:
  "counted_exactly k ib \<Longrightarrow> adds_fresh ib ops \<Longrightarrow>
     \<exists>k'\<le>k + length ops. counted_exactly k' (foldl apply_op ib ops)"
proof (induction ops arbitrary: k ib)
  case Nil
  then show ?case by auto
next
  case (Cons op ops)
  have fresh: "adds_fresh (apply_op ib op) ops"
    using Cons.prems(2) by simp
  have "\<exists>k1\<le>Suc k. counted_exactly k1 (apply_op ib op)"
  proof (cases op)
    case (OpAdd d ts)
    then have "counted_exactly (Suc k) (apply_op ib op)"
      using Cons.prems counted_exactly_Add[of k ib ts d] by simp
    then show ?thesis by blast
  next
    case (OpDelete d)
    then show ?thesis
      using counted_exactly_Delete[OF Cons.prems(1), of d] by (auto intro: le_SucI)
  qed
  then obtain k1 where k1: "k1 \<le> Suc k" "counted_exactly k1 (apply_op ib op)"
    by blast
  from Cons.IH[OF k1(2) fresh] obtain k' where
    "k' \<le> k1 + length ops" "counted_exactly k' (foldl apply_op (apply_op ib op) ops)"
    by blast
  then show ?case using k1(1) by (intro exI[of _ k']) simp
qed

section \<open>Lemmas on the fingerprint decoder\<close>

text \<open>
  The part of \<open>unpackFingerprint\<close> that validation and decoding share (up to line 113):
  a panic, the error to return, or the version, \<open>totalValues\<close> and the resolved codes.
\<close>

definition decode_codes :: "byte list \<Rightarrow> panic + (error + (int \<times> nat \<times> int8 list))" where
  "decode_codes data =
     (if length data < 4 then
        Inr (Inl (Wrap ErrInvalidFingerprint ''encoded fingerprint is less than 4 bytes''))
      else
        let header = BigEndian_Uint32 data;
            version = uint (drop_bit 24 header AND 0xff);
            totalValues = unat (header AND 0xffffff)
        in if totalValues = 0 then
             Inr (Inl (Wrap ErrInvalidFingerprint ''fingerprint contains no items''))
           else
             let bits0 = unpackInt3Array (drop 4 data);
                 (numValues, numExceptionalBits, broke) = scan_bits bits0 0 0 0 totalValues;
                 bits = (case broke of Some bi \<Rightarrow> take (bi + 1) bits0 | None \<Rightarrow> bits0);
                 offset = (case broke of Some bi \<Rightarrow> 4 + (length bits * 3 + 8) div 8 | None \<Rightarrow> 4)
             in if numValues \<noteq> totalValues then
                  Inr (Inl (Wrap ErrInvalidFingerprint ''not enough data to decode normal bits''))
                else
                  (case resolve_exceptional data offset numExceptionalBits bits of
                     Inl p \<Rightarrow> Inl p
                   | Inr (Inl err) \<Rightarrow> Inr (Inl err)
                   | Inr (Inr bits') \<Rightarrow> Inr (Inr (version, totalValues, bits'))))"

lemma unpackFingerprint_decode_codes:
  "unpackFingerprint data fp =
     (case decode_codes data of
        Inl p \<Rightarrow> Inl p
      | Inr (Inl err) \<Rightarrow> Inr (Some err, fp)
      | Inr (Inr (version, totalValues, bits')) \<Rightarrow>
          (case fp of
             None \<Rightarrow> Inr (None, fp)
           | Some f \<Rightarrow>
               (case decode_hashes bits' (replicate totalValues 0) 0 0 of
                  Inl p \<Rightarrow> Inl p
                | Inr hashes \<Rightarrow> Inr (None, Some (f\<lparr>Version := version, Hashes := hashes\<rparr>)))))"
  unfolding unpackFingerprint_def decode_codes_def Let_def
  by (simp split: prod.splits sum.splits)


lemma scan_bits_break:
  "scan_bits bs bi nv ne tv = (nv', ne', Some b) \<Longrightarrow>
     nv' = tv \<and> bi \<le> b \<and> b - bi < length bs \<and> bs ! (b - bi) = 0
     \<and> nv + count_list (take (b - bi + 1) bs) 0 = tv
     \<and> ne + count_list (take (b - bi + 1) bs) 7 = ne'"
proof (induction bs arbitrary: bi nv ne)
  case Nil
  then show ?case by simp
next
  case (Cons c rest)
  show ?case
  proof (cases "c = 0 \<and> nv + 1 = tv")
    case True
    then show ?thesis using Cons.prems by simp
  next
    case False
    define nv1 where "nv1 = (if c = 0 then nv + 1 else nv)"
    define ne1 where "ne1 = (if c = 7 then ne + 1 else ne)"
    have rec: "scan_bits rest (bi + 1) nv1 ne1 tv = (nv', ne', Some b)"
      using Cons.prems False by (auto simp: nv1_def ne1_def split: if_splits)
    note ih = Cons.IH[OF rec]
    then have le: "bi + 1 \<le> b" by simp
    then have idx: "b - bi = Suc (b - (bi + 1))" by simp
    show ?thesis using ih le unfolding idx
      by (auto simp: nv1_def ne1_def)
  qed
qed

lemma scan_bits_no_break:
  "scan_bits bs bi nv ne tv = (nv', ne', None) \<Longrightarrow> nv < tv \<Longrightarrow> nv' < tv"
proof (induction bs arbitrary: bi nv ne)
  case Nil
  then show ?case by simp
next
  case (Cons c rest)
  then show ?case by (auto split: if_splits)
qed

lemma add_exceptional_ok:
  assumes "\<forall>e\<in>set exc. 7 + e \<noteq> 0"
  shows "ei + count_list bs 7 \<le> length exc \<Longrightarrow>
     \<exists>bs'. add_exceptional bs exc ei = Inr bs'
        \<and> count_list bs' 0 = count_list bs 0
        \<and> (bs' = []) = (bs = [])
        \<and> (bs \<noteq> [] \<longrightarrow> (last bs' = 0) = (last bs = 0))"
proof (induction bs arbitrary: ei)
  case Nil
  then show ?case by simp
next
  case (Cons c rest)
  show ?case
  proof (cases "c = 7")
    case True
    then have ei: "ei < length exc" and rest: "(ei + 1) + count_list rest 7 \<le> length exc"
      using Cons.prems by simp_all
    from Cons.IH[OF rest] obtain rest' where r: "add_exceptional rest exc (ei + 1) = Inr rest'"
      "count_list rest' 0 = count_list rest 0" "(rest' = []) = (rest = [])"
      "rest \<noteq> [] \<longrightarrow> (last rest' = 0) = (last rest = 0)" by blast
    have nz: "c + exc ! ei \<noteq> 0" using assms ei True by simp
    show ?thesis using True ei r nz by simp
  next
    case False
    then have rest: "ei + count_list rest 7 \<le> length exc"
      using Cons.prems by simp
    from Cons.IH[OF rest] obtain rest' where r: "add_exceptional rest exc ei = Inr rest'"
      "count_list rest' 0 = count_list rest 0" "(rest' = []) = (rest = [])"
      "rest \<noteq> [] \<longrightarrow> (last rest' = 0) = (last rest = 0)" by blast
    show ?thesis using False r by simp
  qed
qed

lemma decode_hashes_ok:
  "(bs \<noteq> [] \<longrightarrow> last bs = 0) \<Longrightarrow> hi + count_list bs 0 \<le> length hashes \<Longrightarrow>
     \<exists>hs. decode_hashes bs hashes hi lastBit = Inr hs \<and> length hs = length hashes"
proof (induction bs arbitrary: hashes hi lastBit)
  case Nil
  then show ?case by simp
next
  case (Cons c rest)
  have last_rest: "rest \<noteq> [] \<longrightarrow> last rest = 0"
    using Cons.prems(1) by auto
  show ?case
  proof (cases "c = 0")
    case True
    then have hi: "hi < length hashes" and cnt: "(hi + 1) + count_list rest 0 \<le> length hashes"
      using Cons.prems(2) by simp_all
    show ?thesis
    proof (cases "hi > 0")
      case True
      from Cons.IH[OF last_rest, of "hi + 1" "hashes[hi := (hashes ! hi) XOR (hashes ! (hi - 1))]" 0] cnt
      show ?thesis using \<open>c = 0\<close> True hi by simp
    next
      case False
      from Cons.IH[OF last_rest, of "hi + 1" hashes 0] cnt
      show ?thesis using \<open>c = 0\<close> False by simp
    qed
  next
    case False
    then have "rest \<noteq> []" and "last rest = 0"
      using Cons.prems(1) by (auto split: if_splits)
    then have "0 \<in> set rest" by (metis last_in_set)
    then have "0 < count_list rest 0" using count_list_0_iff[of rest 0] by auto
    then have hi: "hi < length hashes" and cnt: "hi + count_list rest 0 \<le> length hashes"
      using Cons.prems(2) False by simp_all
    from Cons.IH[OF last_rest, of hi
        "hashes[hi := (hashes ! hi) OR push_bit (unat (scast (lastBit + c - 1) :: 64 word)) 1]"
        "lastBit + c"] cnt
    show ?thesis using False hi by (simp add: Let_def)
  qed
qed

lemma code_value_acc:
  "foldl (\<lambda>acc b. 2 * acc + (if b then 1 else 0)) (a::nat) bs < (a + 1) * 2 ^ length bs"
proof (induction bs arbitrary: a)
  case Nil
  then show ?case by simp
next
  case (Cons b bs)
  have "foldl (\<lambda>acc b. 2 * acc + (if b then 1 else 0)) (2 * a + (if b then 1 else 0)) bs
          < (2 * a + (if b then 1 else 0) + 1) * 2 ^ length bs"
    by (rule Cons.IH)
  also have "\<dots> \<le> (2 * a + 2) * 2 ^ length bs"
    by (intro mult_right_mono) simp_all
  also have "\<dots> = (a + 1) * 2 ^ length (b # bs)"
    by simp
  finally show ?case by simp
qed

lemma code_value_bound: "code_value bs < 2 ^ length bs"
  using code_value_acc[of 0 bs] by (simp add: code_value_def)

lemma unpackInt5Array_range:
  assumes "e \<in> set (unpackInt5Array data)"
  shows "7 + e \<noteq> 0"
proof -
  from assms obtain i where e: "e = of_nat (code_value (take 5 (drop (i * 5) (bitstream data))))"
    by (auto simp: unpackInt5Array_def unpack_def)
  define v where "v = code_value (take 5 (drop (i * 5) (bitstream data)))"
  have "v < 2 ^ length (take 5 (drop (i * 5) (bitstream data)))"
    unfolding v_def by (rule code_value_bound)
  also have "\<dots> \<le> 2 ^ 5"
    by (intro power_increasing) simp_all
  finally have v: "v < 32" by simp
  have eq: "7 + e = (of_nat (7 + v) :: 8 word)"
    by (simp add: e v_def)
  have "\<not> 2 ^ 8 dvd (7 + v)"
    using v by (auto dest!: dvd_imp_le)
  then have "(of_nat (7 + v) :: 8 word) \<noteq> 0"
    unfolding word_of_nat_eq_0_iff by simp
  then show ?thesis
    unfolding eq .
qed


lemma resolve_exceptional_ok:
  assumes "resolve_exceptional data offset ne bits = Inr (Inr bits')"
      and "ne = count_list bits 7"
  shows "count_list bits' 0 = count_list bits 0 \<and> (bits' = []) = (bits = [])
         \<and> (bits \<noteq> [] \<longrightarrow> (last bits' = 0) = (last bits = 0))"
proof (cases "ne > 0")
  case False
  then show ?thesis using assms(1) by (simp add: resolve_exceptional_def)
next
  case True
  define exc where "exc = unpackInt5Array (drop offset data)"
  have len: "length exc = ne" and ae: "add_exceptional bits exc 0 = Inr bits'"
    using assms(1) True
    by (auto simp: resolve_exceptional_def Let_def exc_def split: if_splits sum.splits)
  have "\<forall>e\<in>set exc. 7 + e \<noteq> 0"
    using unpackInt5Array_range unfolding exc_def by blast
  from add_exceptional_ok[OF this, of 0 bits] len assms(2) ae
  show ?thesis by simp
qed

lemma resolve_exceptional_error:
  "resolve_exceptional data offset ne bits = Inr (Inl err) \<Longrightarrow> Cause err = ErrInvalidFingerprint"
  by (auto simp: resolve_exceptional_def Let_def split: if_splits sum.splits)

lemma decode_codes_error:
  "decode_codes data = Inr (Inl err) \<Longrightarrow> Cause err = ErrInvalidFingerprint"
  unfolding decode_codes_def Let_def
  by (auto split: if_splits sum.splits prod.splits dest: resolve_exceptional_error)

lemma decode_codes_ok:
  assumes "decode_codes data = Inr (Inr (version, tv, bits'))"
  shows "(bits' \<noteq> [] \<longrightarrow> last bits' = 0) \<and> count_list bits' 0 = tv"
proof -
  define tvv where "tvv = unat (BigEndian_Uint32 data AND 0xffffff)"
  define bits0 where "bits0 = unpackInt3Array (drop 4 data)"
  obtain nv ne brk where sc: "scan_bits bits0 0 0 0 tvv = (nv, ne, brk)"
    by (cases "scan_bits bits0 0 0 0 tvv") auto
  define bits where "bits = (case brk of Some bi \<Rightarrow> take (bi + 1) bits0 | None \<Rightarrow> bits0)"
  define offset where "offset =
    (case brk of
       Some bi \<Rightarrow>
         4 + (length (case brk of Some bi \<Rightarrow> take (bi + 1) bits0 | None \<Rightarrow> bits0) * 3 + 8) div 8
     | None \<Rightarrow> 4)"
  have facts: "tvv \<noteq> 0" "nv = tvv" "tv = tvv"
    "resolve_exceptional data offset ne bits = Inr (Inr bits')"
    using assms sc
    unfolding decode_codes_def Let_def tvv_def[symmetric] bits0_def[symmetric]
    by (auto simp: bits_def offset_def split: if_splits sum.splits)
  have "brk \<noteq> None"
    using scan_bits_no_break[of bits0 0 0 0 tvv nv ne] sc facts(1,2) by auto
  then obtain b where b: "brk = Some b" by auto
  from scan_bits_break[OF sc[unfolded b]]
  have br: "b < length bits0" "bits0 ! b = 0"
    "count_list (take (b + 1) bits0) 0 = tvv" "count_list (take (b + 1) bits0) 7 = ne"
    by simp_all
  have bits: "bits = take (b + 1) bits0" by (simp add: bits_def b)
  have ne: "bits \<noteq> []" using br(1) bits by auto
  have "last bits = bits0 ! b"
    using br(1) unfolding bits by (simp add: take_Suc_conv_app_nth)
  then have last: "last bits = 0" using br(2) by simp
  from resolve_exceptional_ok[OF facts(4)] br(4) bits
  have "count_list bits' 0 = count_list bits 0" "(bits' = []) = (bits = [])"
    "bits \<noteq> [] \<longrightarrow> (last bits' = 0) = (last bits = 0)" by simp_all
  then show ?thesis using ne last br(3) bits facts(3) by simp
qed

lemma ParseFingerprint_error:
  "ParseFingerprint data = Inr (fp, Some err) \<Longrightarrow> Cause err = ErrInvalidFingerprint"
  by (auto simp: ParseFingerprint_def unpackFingerprint_decode_codes
      split: sum.splits prod.splits option.splits dest: decode_codes_error)

text \<open>
  The decoder never reads \<open>hashes\<close> or \<open>exceptionalBits\<close> out of range: its only
  panic is the slice \<open>data[offset:]\<close>.
\<close>

lemma resolve_exceptional_panic:
  assumes "resolve_exceptional data offset ne bits = Inl p"
      and "ne = count_list bits 7"
  shows "p = SliceBoundsOutOfRange \<and> length data < offset"
proof (cases "ne > 0 \<and> \<not> offset > length data")
  case False
  then show ?thesis using assms(1)
    by (auto simp: resolve_exceptional_def split: if_splits)
next
  case True
  define exc where "exc = unpackInt5Array (drop offset data)"
  have len: "length exc = ne" and ae: "add_exceptional bits exc 0 = Inl p"
    using assms(1) True
    by (auto simp: resolve_exceptional_def Let_def exc_def split: if_splits sum.splits)
  have "\<forall>e\<in>set exc. 7 + e \<noteq> 0"
    using unpackInt5Array_range unfolding exc_def by blast
  from add_exceptional_ok[OF this, of 0 bits] len assms(2) ae
  show ?thesis by simp
qed

lemma decode_codes_panic:
  assumes "decode_codes data = Inl p"
  shows "p = SliceBoundsOutOfRange"
proof -
  define tvv where "tvv = unat (BigEndian_Uint32 data AND 0xffffff)"
  define bits0 where "bits0 = unpackInt3Array (drop 4 data)"
  obtain nv ne brk where sc: "scan_bits bits0 0 0 0 tvv = (nv, ne, brk)"
    by (cases "scan_bits bits0 0 0 0 tvv") auto
  define bits where "bits = (case brk of Some bi \<Rightarrow> take (bi + 1) bits0 | None \<Rightarrow> bits0)"
  define offset where "offset =
    (case brk of
       Some bi \<Rightarrow>
         4 + (length (case brk of Some bi \<Rightarrow> take (bi + 1) bits0 | None \<Rightarrow> bits0) * 3 + 8) div 8
     | None \<Rightarrow> 4)"
  have facts: "tvv \<noteq> 0" "nv = tvv"
    "resolve_exceptional data offset ne bits = Inl p"
    using assms sc
    unfolding decode_codes_def Let_def tvv_def[symmetric] bits0_def[symmetric]
    by (auto simp: bits_def offset_def split: if_splits sum.splits)
  have "brk \<noteq> None"
    using scan_bits_no_break[of bits0 0 0 0 tvv nv ne] sc facts(1,2) by auto
  then obtain b where b: "brk = Some b" by auto
  from scan_bits_break[OF sc[unfolded b]]
  have "count_list (take (b + 1) bits0) 7 = ne" by simp
  then have "ne = count_list bits 7" by (simp add: bits_def b)
  from resolve_exceptional_panic[OF facts(3) this] show ?thesis by simp
qed

lemma unpackFingerprint_panic:
  assumes "unpackFingerprint data fp = Inl p"
  shows "p = SliceBoundsOutOfRange"
proof (cases "decode_codes data")
  case (Inl q)
  then show ?thesis using assms decode_codes_panic[of data q]
    by (simp add: unpackFingerprint_decode_codes)
next
  case (Inr res)
  show ?thesis
  proof (cases res)
    case (Inl e)
    then show ?thesis using assms Inr by (simp add: unpackFingerprint_decode_codes)
  next
    case (Inr ok)
    obtain version tv bits' where ok: "ok = (version, tv, bits')"
      by (cases ok) auto
    have dc: "decode_codes data = Inr (Inr (version, tv, bits'))"
      using \<open>decode_codes data = Inr res\<close> Inr ok by simp
    from decode_codes_ok[OF dc]
    have "bits' \<noteq> [] \<longrightarrow> last bits' = 0" "0 + count_list bits' 0 \<le> length (replicate tv (0::uint32))"
      by simp_all
    from decode_hashes_ok[OF this, of 0]
    obtain hs where hs: "decode_hashes bits' (replicate tv 0) 0 0 = Inr hs"
      by blast
    show ?thesis using assms dc hs
      by (cases fp) (simp_all add: unpackFingerprint_decode_codes)
  qed
qed

text \<open>
  Text that is not base64 in the URL-safe alphabet without padding: it holds a
  character that is neither of the alphabet nor a line feed or carriage return, or
  its characters of the alphabet end in a group of one.
\<close>

definition malformed_base64 :: "string \<Rightarrow> bool" where
  "malformed_base64 s =
     ((\<exists>c\<in>set s. c \<notin> set b64_alphabet \<and> c \<noteq> CHR 0x0A \<and> c \<noteq> CHR 0x0D)
      \<or> length (filter (\<lambda>c. c \<in> set b64_alphabet) s) mod 4 = 1)"

lemma b64_index_None: "(b64_index c xs = None) = (c \<notin> set xs)"
  by (induction xs) auto

lemma decode_quanta_error:
  "length dbuf < 4 \<Longrightarrow>
     snd (decode_quanta s dbuf dst) =
       (if (\<exists>c\<in>set s. c \<notin> set b64_alphabet \<and> c \<noteq> CHR 0x0A \<and> c \<noteq> CHR 0x0D)
           \<or> (length dbuf + length (filter (\<lambda>c. c \<in> set b64_alphabet) s)) mod 4 = 1
        then Some CorruptInputError else None)"
proof (induction s arbitrary: dbuf dst)
  case Nil
  then have "length dbuf mod 4 = length dbuf" by simp
  then show ?case by simp
next
  case (Cons c src)
  show ?case
  proof (cases "b64_index c b64_alphabet")
    case None
    then have nin: "c \<notin> set b64_alphabet" by (simp add: b64_index_None)
    show ?thesis
    proof (cases "c = CHR 0x0A \<or> c = CHR 0x0D")
      case True
      then show ?thesis using None nin Cons.IH[OF Cons.prems, of dst] by auto
    next
      case False
      then show ?thesis using None nin by auto
    qed
  next
    case (Some v)
    then have mem: "c \<in> set b64_alphabet"
      using b64_index_None[of c b64_alphabet] by auto
    show ?thesis
    proof (cases "length dbuf = 3")
      case True
      have "(3 + Suc n) mod 4 = n mod 4" for n :: nat
        by presburger
      then show ?thesis
        using Some mem True Cons.IH[of "[]" "dst @ quantum_bytes (dbuf @ [v])"] by simp
    next
      case False
      then have "length (dbuf @ [v]) < 4" using Cons.prems by simp
      from Cons.IH[OF this, of dst] show ?thesis
        using Some mem False by simp
    qed
  qed
qed

lemma DecodeString_error:
  "snd (RawURLEncoding_DecodeString s) = (if malformed_base64 s then Some CorruptInputError else None)"
  using decode_quanta_error[of "[]" s "[]"]
  by (simp add: RawURLEncoding_DecodeString_def malformed_base64_def)

section \<open>Lemmas on merging\<close>

text \<open>
  What two streams give when the comparison of \<open>ReadBlock\<close> decides each step, with no
  blocks in the way.
\<close>

fun interleave :: "Item list \<Rightarrow> Item list \<Rightarrow> Item list" where
  "interleave (v1 # s1) (v2 # s2) =
     (if takes_left v1 v2 then v1 # interleave s1 (v2 # s2) else v2 # interleave (v1 # s1) s2)"
| "interleave [] s2 = s2"
| "interleave s1 [] = s1"

text \<open>
  What a reader will hand out in total: for a merge node, the interleaving of what
  its two sides still hold, pending blocks first.
\<close>

fun stream :: "ItemReader \<Rightarrow> Item list" where
  "stream nilReader = []"
| "stream (itemBufferReader ib pos) = drop pos (items ib)"
| "stream (externalReader script) = concat (map fst script)"
| "stream (multiItemReader reader1 reader2 block1 block2) =
     interleave (block1 @ stream reader1) (block2 @ stream reader2)"

text \<open>
  The readers built from buffer readers by merging.
\<close>

fun buffer_tree :: "ItemReader \<Rightarrow> bool" where
  "buffer_tree nilReader = True"
| "buffer_tree (itemBufferReader ib pos) = True"
| "buffer_tree (externalReader script) = False"
| "buffer_tree (multiItemReader reader1 reader2 block1 block2) =
     (buffer_tree reader1 \<and> buffer_tree reader2)"

lemma interleave_Nil_right [simp]: "interleave s1 [] = s1"
  by (cases s1) simp_all

lemma takes_left_iff: "takes_left v1 v2 = (Term v1 \<le> Term v2)"
  by (auto simp: takes_left_def)

lemma mset_interleave: "mset (interleave s1 s2) = mset s1 + mset s2"
  by (induction s1 s2 rule: interleave.induct) simp_all

lemma set_interleave: "set (interleave s1 s2) = set s1 \<union> set s2"
  by (induction s1 s2 rule: interleave.induct) auto

definition term_sorted :: "Item list \<Rightarrow> bool" where
  "term_sorted s = sorted_wrt (\<lambda>a b. Term a \<le> Term b) s"

lemma term_sorted_interleave:
  "term_sorted s1 \<Longrightarrow> term_sorted s2 \<Longrightarrow> term_sorted (interleave s1 s2)"
proof (induction s1 s2 rule: interleave.induct)
  case (1 v1 s1 v2 s2)
  show ?case
  proof (cases "takes_left v1 v2")
    case True
    then have le: "Term v1 \<le> Term v2" by (simp add: takes_left_iff)
    have "\<forall>z\<in>set s1 \<union> set (v2 # s2). Term v1 \<le> Term z"
      using "1.prems" le by (auto simp: term_sorted_def)
    moreover have "term_sorted (interleave s1 (v2 # s2))"
      using "1.IH"(1)[OF True] "1.prems" by (simp add: term_sorted_def)
    ultimately show ?thesis using True
      by (simp add: term_sorted_def set_interleave)
  next
    case False
    then have le: "Term v2 \<le> Term v1" by (simp add: takes_left_iff)
    have "\<forall>z\<in>set (v1 # s1) \<union> set s2. Term v2 \<le> Term z"
      using "1.prems" le by (auto simp: term_sorted_def)
    moreover have "term_sorted (interleave (v1 # s1) s2)"
      using "1.IH"(2)[OF False] "1.prems" by (simp add: term_sorted_def)
    ultimately show ?thesis using False
      by (simp add: term_sorted_def set_interleave)
  qed
qed simp_all

lemma merge_loop_interleave:
  "merge_loop n b1 b2 = (out, c1, c2) \<Longrightarrow>
     interleave (b1 @ t1) (b2 @ t2) = out @ interleave (c1 @ t1) (c2 @ t2)"
proof (induction n b1 b2 arbitrary: out c1 c2 rule: merge_loop.induct)
  case (1 n v1 block1 v2 block2)
  show ?case
  proof (cases "n = 0")
    case True
    then show ?thesis using "1.prems" by simp
  next
    case n: False
    show ?thesis
    proof (cases "takes_left v1 v2")
      case True
      show ?thesis
      proof (cases "block1 = []")
        case True
        then show ?thesis using "1.prems" n \<open>takes_left v1 v2\<close> by auto
      next
        case False
        obtain o' where o': "merge_loop (n - 1) block1 (v2 # block2) = (o', c1, c2)" "out = v1 # o'"
          using "1.prems" n True False by (auto split: prod.splits)
        from "1.IH"(1)[OF n True _ o'(1)] False
        show ?thesis using True o'(2) by simp
      qed
    next
      case nl: False
      show ?thesis
      proof (cases "block2 = []")
        case True
        then show ?thesis using "1.prems" n nl by auto
      next
        case False
        obtain o' where o': "merge_loop (n - 1) (v1 # block1) block2 = (o', c1, c2)" "out = v2 # o'"
          using "1.prems" n nl False by (auto split: prod.splits)
        from "1.IH"(2)[OF n nl _ o'(1)] False
        show ?thesis using nl o'(2) by simp
      qed
    qed
  qed
qed simp_all


lemma emit_interleave:
  assumes "emit b1 b2 = ((out, e), c1, c2)"
      and "b1 = [] \<longrightarrow> t1 = []" and "b2 = [] \<longrightarrow> t2 = []"
  shows "(e = None \<and> out \<noteq> [] \<and> interleave (b1 @ t1) (b2 @ t2) = out @ interleave (c1 @ t1) (c2 @ t2))
         \<or> (e = Some EOF \<and> out = [] \<and> interleave (b1 @ t1) (b2 @ t2) = []
             \<and> interleave (c1 @ t1) (c2 @ t2) = [])"
proof (cases "b1 \<noteq> [] \<and> b2 \<noteq> []")
  case True
  then have ml: "merge_loop bufsize b1 b2 = (out, c1, c2)" and e: "e = None"
    using assms(1) by (auto simp: emit_def split: prod.splits)
  have "out \<noteq> []"
    using merge_loop_nonempty[OF ml] True by (simp add: bufsize_def)
  then show ?thesis using merge_loop_interleave[OF ml, of t1 t2] e by simp
next
  case False
  then show ?thesis using assms by (auto simp: emit_def split: if_splits)
qed

text \<open>
  What \<open>ReadBlock\<close> does on a tree of buffer readers: a non-empty block that is the
  next part of the stream, or end-of-stream when the stream is used up.
\<close>

definition hands_out :: "ItemReader \<Rightarrow> bool" where
  "hands_out r =
     (\<exists>blk e r'. ReadBlock r = Inr ((blk, e), r') \<and> buffer_tree r' \<and> r' \<noteq> nilReader
        \<and> ((e = None \<and> blk \<noteq> [] \<and> stream r = blk @ stream r')
            \<or> (e = Some EOF \<and> blk = [] \<and> stream r = [] \<and> stream r' = [])))"

lemma side_stream:
  assumes "r \<noteq> nilReader \<longrightarrow> hands_out r" and "buffer_tree r"
  shows "\<exists>r' b'. side r b = Inr (None, r', b') \<and> buffer_tree r'
           \<and> b' @ stream r' = b @ stream r \<and> (b' = [] \<longrightarrow> stream r' = [])"
proof (cases "length b = 0 \<and> r \<noteq> nilReader")
  case False
  then have "side r b = Inr (None, r, b)" by (simp add: side_def)
  moreover have "b = [] \<longrightarrow> stream r = []" using False by auto
  ultimately show ?thesis using assms(2) by simp
next
  case True
  then obtain blk e r' where rb: "ReadBlock r = Inr ((blk, e), r')" "buffer_tree r'"
    and alt: "(e = None \<and> blk \<noteq> [] \<and> stream r = blk @ stream r')
            \<or> (e = Some EOF \<and> blk = [] \<and> stream r = [] \<and> stream r' = [])"
    using assms(1) unfolding hands_out_def by blast
  from alt show ?thesis
  proof
    assume "e = None \<and> blk \<noteq> [] \<and> stream r = blk @ stream r'"
    then show ?thesis using True rb by (simp add: side_def)
  next
    assume "e = Some EOF \<and> blk = [] \<and> stream r = [] \<and> stream r' = []"
    then show ?thesis using True rb by (simp add: side_def)
  qed
qed

lemma ReadBlock_hands_out:
  "buffer_tree r \<Longrightarrow> r \<noteq> nilReader \<Longrightarrow> hands_out r"
proof (induction r)
  case nilReader
  then show ?case by simp
next
  case (itemBufferReader ib pos)
  show ?case
  proof (cases "pos \<ge> length (items ib)")
    case True
    then show ?thesis by (simp add: hands_out_def)
  next
    case False
    then show ?thesis by (simp add: hands_out_def Let_def)
  qed
next
  case (externalReader script)
  then show ?case by simp
next
  case (multiItemReader r1 r2 b1 b2)
  have bt: "buffer_tree r1" "buffer_tree r2"
    using multiItemReader.prems by simp_all
  from side_stream[of r1 b1] multiItemReader.IH(1) bt(1)
  obtain r1' b1' where s1: "side r1 b1 = Inr (None, r1', b1')" "buffer_tree r1'"
    "b1' @ stream r1' = b1 @ stream r1" "b1' = [] \<longrightarrow> stream r1' = []"
    by blast
  from side_stream[of r2 b2] multiItemReader.IH(2) bt(2)
  obtain r2' b2' where s2: "side r2 b2 = Inr (None, r2', b2')" "buffer_tree r2'"
    "b2' @ stream r2' = b2 @ stream r2" "b2' = [] \<longrightarrow> stream r2' = []"
    by blast
  obtain out e c1 c2 where em: "emit b1' b2' = ((out, e), c1, c2)"
    by (cases "emit b1' b2'") auto
  have rb: "ReadBlock (multiItemReader r1 r2 b1 b2) = Inr ((out, e), multiItemReader r1' r2' c1 c2)"
    unfolding ReadBlock_multi using s1(1) s2(1) em by simp
  have st: "stream (multiItemReader r1 r2 b1 b2) = interleave (b1' @ stream r1') (b2' @ stream r2')"
    using s1(3) s2(3) by simp
  from emit_interleave[OF em s1(4) s2(4)]
  show ?case unfolding hands_out_def rb st using s1(2) s2(2) by auto
qed

lemma ReadAllItems_loop_stream:
  "buffer_tree r \<Longrightarrow> r \<noteq> nilReader \<Longrightarrow> ReadAllItems_loop r acc = Inr (acc @ stream r, None)"
proof (induction r acc rule: ReadAllItems_loop.induct)
  case (1 reader acc)
  from ReadBlock_hands_out[OF "1.prems"]
  obtain blk e r' where rb: "ReadBlock reader = Inr ((blk, e), r')" "buffer_tree r'" "r' \<noteq> nilReader"
    and alt: "(e = None \<and> blk \<noteq> [] \<and> stream reader = blk @ stream r')
            \<or> (e = Some EOF \<and> blk = [] \<and> stream reader = [] \<and> stream r' = [])"
    unfolding hands_out_def by blast
  from alt show ?case
  proof
    assume a: "e = None \<and> blk \<noteq> [] \<and> stream reader = blk @ stream r'"
    then have "ReadAllItems_loop r' (acc @ blk) = Inr ((acc @ blk) @ stream r', None)"
      using "1.IH"[of "((blk, e), r')" "(blk, e)" r' blk e] rb by simp
    then show ?thesis
      using a rb(1) by (subst ReadAllItems_loop.simps) simp
  next
    assume "e = Some EOF \<and> blk = [] \<and> stream reader = [] \<and> stream r' = []"
    then show ?thesis
      using rb(1) by (subst ReadAllItems_loop.simps) simp
  qed
qed


declare MergeItemReaders.simps [simp del]

lemma MergeItemReaders_small:
  "MergeItemReaders [] = nilReader"
  "MergeItemReaders [r] = r"
  "MergeItemReaders [a, b] = merge_pair a b"
  by (simp_all add: MergeItemReaders.simps)

lemma MergeItemReaders_split:
  "3 \<le> length rs \<Longrightarrow>
     MergeItemReaders rs =
       merge_pair (MergeItemReaders (take (length rs div 2) rs))
                  (MergeItemReaders (drop (length rs div 2) rs))"
  by (subst MergeItemReaders.simps) auto

lemma stream_merge_pair: "stream (merge_pair a b) = interleave (stream a) (stream b)"
  by (simp add: merge_pair_def)

lemma buffer_tree_merge_pair: "buffer_tree (merge_pair a b) = (buffer_tree a \<and> buffer_tree b)"
  by (auto simp: merge_pair_def)

lemma merge_pair_nil: "(merge_pair a b = nilReader) = (a = nilReader \<and> b = nilReader)"
  by (auto simp: merge_pair_def)

text \<open>
  What the merge of a list of readers is, in terms of the readers' streams.
\<close>

text \<open>
  Two sequences whose postings of equal term are in docID order, the first sequence's
  before the second's; and a list of sequences that are so pairwise, in list order.
\<close>

definition ties_agree :: "Item list \<Rightarrow> Item list \<Rightarrow> bool" where
  "ties_agree s t = (\<forall>a\<in>set s. \<forall>b\<in>set t. Term a = Term b \<longrightarrow> DocID a \<le> DocID b)"

definition ties_in_order :: "Item list list \<Rightarrow> bool" where
  "ties_in_order ss = sorted_wrt ties_agree ss"

lemma item_le_interleave:
  "sorted_wrt item_le s1 \<Longrightarrow> sorted_wrt item_le s2 \<Longrightarrow> ties_agree s1 s2 \<Longrightarrow>
     sorted_wrt item_le (interleave s1 s2)"
proof (induction s1 s2 rule: interleave.induct)
  case (1 v1 s1 v2 s2)
  show ?case
  proof (cases "takes_left v1 v2")
    case True
    then have le: "Term v1 \<le> Term v2" by (simp add: takes_left_iff)
    have "item_le v1 z" if "z \<in> set (v2 # s2)" for z
    proof -
      have "Term v2 \<le> Term z" using that "1.prems"(2) by (auto simp: item_le_def)
      then have "Term v1 \<le> Term z" using le by simp
      moreover have "Term v1 = Term z \<longrightarrow> DocID v1 \<le> DocID z"
        using that "1.prems"(3) by (auto simp: ties_agree_def)
      ultimately show ?thesis by (auto simp: item_le_def)
    qed
    then have "\<forall>z\<in>set s1 \<union> set (v2 # s2). item_le v1 z"
      using "1.prems"(1) by auto
    moreover have "sorted_wrt item_le (interleave s1 (v2 # s2))"
      using "1.IH"(1)[OF True] "1.prems" by (simp add: ties_agree_def)
    ultimately show ?thesis using True by (simp add: set_interleave)
  next
    case False
    then have lt: "Term v2 < Term v1" by (simp add: takes_left_iff)
    have "item_le v2 z" if "z \<in> set (v1 # s1)" for z
    proof -
      have "Term v1 \<le> Term z" using that "1.prems"(1) by (auto simp: item_le_def)
      then show ?thesis using lt by (auto simp: item_le_def)
    qed
    then have "\<forall>z\<in>set (v1 # s1) \<union> set s2. item_le v2 z"
      using "1.prems"(2) by auto
    moreover have "sorted_wrt item_le (interleave (v1 # s1) s2)"
      using "1.IH"(2)[OF False] "1.prems" by (simp add: ties_agree_def)
    ultimately show ?thesis using False by (simp add: set_interleave)
  qed
qed simp_all

text \<open>
  What the merge of a list of readers is, in terms of the readers' streams.
\<close>

definition merges :: "ItemReader list \<Rightarrow> bool" where
  "merges rs =
     (buffer_tree (MergeItemReaders rs)
      \<and> mset (stream (MergeItemReaders rs)) = mset (concat (map stream rs))
      \<and> ((\<forall>r\<in>set rs. term_sorted (stream r)) \<longrightarrow> term_sorted (stream (MergeItemReaders rs)))
      \<and> ((\<forall>r\<in>set rs. sorted_wrt item_le (stream r)) \<and> ties_in_order (map stream rs)
            \<longrightarrow> sorted_wrt item_le (stream (MergeItemReaders rs)))
      \<and> (rs \<noteq> [] \<and> nilReader \<notin> set rs \<longrightarrow> MergeItemReaders rs \<noteq> nilReader))"

lemma merges_pair:
  assumes "merges xs" and "merges ys"
    and mp: "MergeItemReaders (xs @ ys) = merge_pair (MergeItemReaders xs) (MergeItemReaders ys)"
    and "xs \<noteq> []" and "ys \<noteq> []"
  shows "merges (xs @ ys)"
proof -
  have sx: "set (stream (MergeItemReaders xs)) = set (concat (map stream xs))"
    and sy: "set (stream (MergeItemReaders ys)) = set (concat (map stream ys))"
    using assms(1,2) unfolding merges_def by (metis set_mset_mset)+
  have cross: "ties_agree (stream (MergeItemReaders xs)) (stream (MergeItemReaders ys))"
    if "ties_in_order (map stream (xs @ ys))"
    using that unfolding ties_in_order_def ties_agree_def sx sy
    by (auto simp: sorted_wrt_append ties_agree_def)
  have full: "sorted_wrt item_le (stream (MergeItemReaders (xs @ ys)))"
    if a: "\<forall>r\<in>set (xs @ ys). sorted_wrt item_le (stream r)"
      and t: "ties_in_order (map stream (xs @ ys))"
  proof -
    have "ties_in_order (map stream xs)" "ties_in_order (map stream ys)"
      using t by (simp_all add: ties_in_order_def sorted_wrt_append)
    then have "sorted_wrt item_le (stream (MergeItemReaders xs))"
      "sorted_wrt item_le (stream (MergeItemReaders ys))"
      using a assms(1,2) unfolding merges_def by auto
    then show ?thesis
      unfolding mp stream_merge_pair by (intro item_le_interleave cross[OF t])
  qed
  have rest: "buffer_tree (MergeItemReaders (xs @ ys))"
    "mset (stream (MergeItemReaders (xs @ ys))) = mset (concat (map stream (xs @ ys)))"
    "(\<forall>r\<in>set (xs @ ys). term_sorted (stream r)) \<longrightarrow> term_sorted (stream (MergeItemReaders (xs @ ys)))"
    "(xs @ ys) \<noteq> [] \<and> nilReader \<notin> set (xs @ ys) \<longrightarrow> MergeItemReaders (xs @ ys) \<noteq> nilReader"
    using assms unfolding merges_def
    by (simp_all add: stream_merge_pair buffer_tree_merge_pair merge_pair_nil mset_interleave
        term_sorted_interleave)
  show ?thesis unfolding merges_def using rest full by blast
qed

lemma MergeItemReaders_merges:
  "\<forall>r\<in>set rs. buffer_tree r \<Longrightarrow> merges rs"
proof (induction rs rule: length_induct)
  case (1 rs)
  consider "rs = []" | r where "rs = [r]" | a b where "rs = [a, b]" | "3 \<le> length rs"
    by (cases rs rule: list.exhaust; (cases "tl rs"; (cases "tl (tl rs)"; force)))
  then show ?case
  proof cases
    case 1
    then show ?thesis by (simp add: merges_def MergeItemReaders_small term_sorted_def)
  next
    case 2
    then show ?thesis using "1.prems" by (simp add: merges_def MergeItemReaders_small)
  next
    case 3
    then show ?thesis using "1.prems"
      by (auto simp: merges_def MergeItemReaders_small stream_merge_pair buffer_tree_merge_pair
          merge_pair_nil mset_interleave term_sorted_interleave ties_in_order_def
          item_le_interleave)
  next
    case 4
    define mid where "mid = length rs div 2"
    have mid: "0 < mid" "mid < length rs" using 4 by (simp_all add: mid_def)
    have sub: "\<forall>r\<in>set (take mid rs). buffer_tree r" "\<forall>r\<in>set (drop mid rs). buffer_tree r"
      using "1.prems" by (auto dest: in_set_takeD in_set_dropD)
    have m1: "merges (take mid rs)" and m2: "merges (drop mid rs)"
      using "1.IH" mid sub by simp_all
    have "merges (take mid rs @ drop mid rs)"
    proof (rule merges_pair[OF m1 m2])
      show "MergeItemReaders (take mid rs @ drop mid rs) =
              merge_pair (MergeItemReaders (take mid rs)) (MergeItemReaders (drop mid rs))"
        using MergeItemReaders_split[OF 4] by (simp add: mid_def)
      show "take mid rs \<noteq> []" "drop mid rs \<noteq> []" using mid by auto
    qed
    then show ?thesis by simp
  qed
qed


lemma item_le_Term: "item_le a b \<Longrightarrow> Term a \<le> Term b"
  by (auto simp: item_le_def)

section \<open>The claims\<close>

text \<open>
  Claim C1, as amended: for any non-empty list of buffers whose items are sorted by
  (term, docID), draining the reader that \<open>MergeItemReaders\<close> builds over their
  readers ends without an error and yields the postings of all buffers, each as often
  as it occurs, in ascending order of term. The result is the sorted concatenation,
  ordered by term and then docID, whenever postings of equal term from two different
  buffers have their docIDs in the order of the buffers in the list. (What the order
  of docIDs is otherwise is the subject of claim C2; the list of length 0 that of C3.)
\<close>

theorem merge_drain:
  assumes "ibs \<noteq> []" and "\<forall>ib\<in>set ibs. sorted_wrt item_le (items ib)"
  shows "\<exists>out. ReadAllItems (MergeItemReaders (map (\<lambda>ib. itemBufferReader ib 0) ibs)) = Inr (out, None)
           \<and> mset out = mset (concat (map items ibs))
           \<and> sorted_wrt (\<lambda>a b. Term a \<le> Term b) out
           \<and> (ties_in_order (map items ibs) \<longrightarrow> sorted_wrt item_le out)"
proof -
  define rs where "rs = map (\<lambda>ib. itemBufferReader ib 0) ibs"
  have st: "map stream rs = map items ibs"
    by (simp add: rs_def)
  have "\<forall>r\<in>set rs. buffer_tree r"
    by (auto simp: rs_def)
  then have m: "merges rs" by (rule MergeItemReaders_merges)
  have ne: "rs \<noteq> []" "nilReader \<notin> set rs"
    using assms(1) by (auto simp: rs_def)
  have il: "\<forall>r\<in>set rs. sorted_wrt item_le (stream r)"
    using assms(2) by (auto simp: rs_def)
  then have ts: "\<forall>r\<in>set rs. term_sorted (stream r)"
    unfolding term_sorted_def by (blast intro: sorted_wrt_mono_rel[rotated] item_le_Term)
  have "buffer_tree (MergeItemReaders rs)" "MergeItemReaders rs \<noteq> nilReader"
    using m ne unfolding merges_def by simp_all
  then have "ReadAllItems (MergeItemReaders rs) = Inr (stream (MergeItemReaders rs), None)"
    unfolding ReadAllItems_def using ReadAllItems_loop_stream[of "MergeItemReaders rs" "[]"] by simp
  moreover have "mset (stream (MergeItemReaders rs)) = mset (concat (map items ibs))"
    using m unfolding merges_def st by simp
  moreover have "sorted_wrt (\<lambda>a b. Term a \<le> Term b) (stream (MergeItemReaders rs))"
    using m ts unfolding merges_def term_sorted_def by simp
  moreover have "ties_in_order (map items ibs) \<longrightarrow> sorted_wrt item_le (stream (MergeItemReaders rs))"
    using m il unfolding merges_def st by simp
  ultimately show ?thesis unfolding rs_def by blast
qed

theorem merge_drain_witness:
  "[Add empty_buffer 10 [1, 2], Add empty_buffer 20 [2, 3], Add empty_buffer 30 [3]] \<noteq> []
   \<and> sorted_wrt item_le (items (Add empty_buffer 10 [1, 2]))
   \<and> sorted_wrt item_le (items (Add empty_buffer 20 [2, 3]))
   \<and> sorted_wrt item_le (items (Add empty_buffer 30 [3]))
   \<and> ties_in_order (map items
         [Add empty_buffer 10 [1, 2], Add empty_buffer 20 [2, 3], Add empty_buffer 30 [3]])
   \<and> ReadAllItems (MergeItemReaders (map (\<lambda>ib. itemBufferReader ib 0)
         [Add empty_buffer 10 [1, 2], Add empty_buffer 20 [2, 3], Add empty_buffer 30 [3]])) =
       Inr ([\<lparr>Term = 1, DocID = 10\<rparr>, \<lparr>Term = 2, DocID = 10\<rparr>, \<lparr>Term = 2, DocID = 20\<rparr>,
             \<lparr>Term = 3, DocID = 20\<rparr>, \<lparr>Term = 3, DocID = 30\<rparr>], None)
   \<and> (\<exists>out. ReadAllItems (MergeItemReaders (map (\<lambda>ib. itemBufferReader ib 0)
         [Add empty_buffer 10 [1, 2], Add empty_buffer 20 [2, 3], Add empty_buffer 30 [3]])) =
           Inr (out, None) \<and> sorted_wrt item_le out)"
proof -
  have ne: "[Add empty_buffer 10 [1, 2], Add empty_buffer 20 [2, 3], Add empty_buffer 30 [3]] \<noteq> []"
    by simp
  have s1: "sorted_wrt item_le (items (Add empty_buffer 10 [1, 2]))"
    and s2: "sorted_wrt item_le (items (Add empty_buffer 20 [2, 3]))"
    and s3: "sorted_wrt item_le (items (Add empty_buffer 30 [3]))"
    by code_simp+
  have ties: "ties_in_order (map items
         [Add empty_buffer 10 [1, 2], Add empty_buffer 20 [2, 3], Add empty_buffer 30 [3]])"
    by code_simp
  have ev: "ReadAllItems (MergeItemReaders (map (\<lambda>ib. itemBufferReader ib 0)
         [Add empty_buffer 10 [1, 2], Add empty_buffer 20 [2, 3], Add empty_buffer 30 [3]])) =
       Inr ([\<lparr>Term = 1, DocID = 10\<rparr>, \<lparr>Term = 2, DocID = 10\<rparr>, \<lparr>Term = 2, DocID = 20\<rparr>,
             \<lparr>Term = 3, DocID = 20\<rparr>, \<lparr>Term = 3, DocID = 30\<rparr>], None)"
    by code_simp
  have all: "\<forall>ib\<in>set [Add empty_buffer 10 [1, 2], Add empty_buffer 20 [2, 3], Add empty_buffer 30 [3]].
               sorted_wrt item_le (items ib)"
    using s1 s2 s3 by simp
  from merge_drain[OF ne all] ties
  have "\<exists>out. ReadAllItems (MergeItemReaders (map (\<lambda>ib. itemBufferReader ib 0)
         [Add empty_buffer 10 [1, 2], Add empty_buffer 20 [2, 3], Add empty_buffer 30 [3]])) =
           Inr (out, None) \<and> sorted_wrt item_le out"
    by blast
  then show ?thesis using ne s1 s2 s3 ties ev by blast
qed

text \<open>
  The claim as stated fails for two readers: both sequences are sorted, and the drain
  yields (1, 20) before (1, 10). It also fails for the empty list, where the merged
  reader is nil and the drain panics.
\<close>

theorem merge_drain_counterexample:
  "sorted_wrt item_le (items (Add empty_buffer 20 [1]))
   \<and> sorted_wrt item_le (items (Add empty_buffer 10 [1]))
   \<and> ReadAllItems (MergeItemReaders [itemBufferReader (Add empty_buffer 20 [1]) 0,
                                      itemBufferReader (Add empty_buffer 10 [1]) 0]) =
       Inr ([\<lparr>Term = 1, DocID = 20\<rparr>, \<lparr>Term = 1, DocID = 10\<rparr>], None)
   \<and> \<not> sorted_wrt item_le [\<lparr>Term = 1, DocID = 20\<rparr>, \<lparr>Term = 1, DocID = 10\<rparr>]
   \<and> ReadAllItems (MergeItemReaders []) = Inl NilDereference"
  by code_simp

text \<open>
  Claim C2 (each element a pairwise merge emits is the smaller of the two pending heads;
  with equal terms the smaller docID goes first): the code does otherwise. The
  comparison of line 196 starts with \<open>v1.Term <= v2.Term\<close>, so with equal terms the
  left head is taken whatever the docIDs are. Merging the readers of a buffer holding
  (1, 20) and of a buffer holding (1, 10), the first block is (1, 20), although
  (1, 10) is pending on the right and is the smaller posting.
\<close>

theorem readblock_equal_terms_emits_larger_docid:
  "ReadBlock (MergeItemReaders [snd (Reader (Add empty_buffer 20 [1])),
                                snd (Reader (Add empty_buffer 10 [1]))]) =
     Inr (([\<lparr>Term = 1, DocID = 20\<rparr>], None),
          multiItemReader
            (itemBufferReader \<lparr>numDocs = 1, minDocID = 20, maxDocID = 20,
                                items = [\<lparr>Term = 1, DocID = 20\<rparr>]\<rparr> 1)
            (itemBufferReader \<lparr>numDocs = 1, minDocID = 10, maxDocID = 10,
                                items = [\<lparr>Term = 1, DocID = 10\<rparr>]\<rparr> 1)
            [] [\<lparr>Term = 1, DocID = 10\<rparr>])
   \<and> item_less \<lparr>Term = 1, DocID = 10\<rparr> \<lparr>Term = 1, DocID = 20\<rparr>"
  by code_simp

text \<open>
  Claim C3, as amended: \<open>MergeItemReaders\<close> with zero readers returns the nil
  \<open>ItemReader\<close>, not a reader object. Nil cannot be read from (\<open>ReadBlock\<close> on it
  panics), and it is accepted by a further merge, which drops it: merging it with a
  reader \<open>r\<close>, on either side, returns \<open>r\<close> itself.
\<close>

theorem merge_zero_readers_is_nil:
  "MergeItemReaders [] = nilReader
   \<and> ReadBlock (MergeItemReaders []) = Inl NilDereference
   \<and> MergeItemReaders [MergeItemReaders [], r] = r
   \<and> MergeItemReaders [r, MergeItemReaders []] = r
   \<and> ReadAllItems (MergeItemReaders [MergeItemReaders [], r]) = ReadAllItems r"
  by (simp add: MergeItemReaders_small merge_pair_def)

theorem merge_zero_readers_is_nil_witness:
  "ReadAllItems (MergeItemReaders [MergeItemReaders [], snd (Reader (Add empty_buffer 7 [3]))])
     = Inr ([\<lparr>Term = 3, DocID = 7\<rparr>], None)"
proof -
  have "ReadAllItems (snd (Reader (Add empty_buffer 7 [3]))) = Inr ([\<lparr>Term = 3, DocID = 7\<rparr>], None)"
    by code_simp
  then show ?thesis
    using merge_zero_readers_is_nil[of "snd (Reader (Add empty_buffer 7 [3]))"] by metis
qed

text \<open>
  The claim as stated fails: \<open>ReadAllItems\<close> applied to \<open>MergeItemReaders()\<close> calls
  \<open>ReadBlock\<close> on the nil interface value and panics instead of returning the empty
  sequence.
\<close>

theorem merge_zero_readers_counterexample:
  "ReadAllItems (MergeItemReaders []) = Inl NilDereference
   \<and> ReadAllItems (MergeItemReaders []) \<noteq> Inr ([], None)"
  by code_simp

text \<open>
  Claim C4 (minDocID \<open>\<le>\<close> maxDocID whenever NumDocs > 0, after any sequence of Add and
  Delete): the code does otherwise. After document 5 is added twice and deleted once,
  one document is still counted but no item is left; the rescan of \<open>Delete\<close> then runs
  over nothing and leaves minDocID at MaxUint32 and maxDocID at 0.
\<close>

theorem delete_leaves_min_above_max:
  "run_ops [OpAdd 5 [1], OpAdd 5 [2], OpDelete 5] =
     \<lparr>numDocs = 1, minDocID = 0xFFFFFFFF, maxDocID = 0, items = []\<rparr>
   \<and> 0 <s numDocs (run_ops [OpAdd 5 [1], OpAdd 5 [2], OpDelete 5])
   \<and> \<not> minDocID (run_ops [OpAdd 5 [1], OpAdd 5 [2], OpDelete 5])
        \<le> maxDocID (run_ops [OpAdd 5 [1], OpAdd 5 [2], OpDelete 5])"
  by code_simp

text \<open>
  Claim C5, as amended: for every ItemBuffer reached from the empty one by fewer than
  \<open>2 ^ 64\<close> operations Add and Delete, \<open>Empty()\<close> holds whenever \<open>NumDocs()\<close> is 0;
  and \<open>Empty()\<close> holds exactly when \<open>NumDocs()\<close> is 0 if every Add brought at least
  one term and a docID that the buffer did not hold at that time. (Without that, a
  document added without terms is counted while the buffer is empty.)
\<close>

theorem no_documents_implies_empty:
  assumes "length ops < 2 ^ 64"
  shows "(NumDocs (run_ops ops) = 0 \<longrightarrow> Empty (run_ops ops))
         \<and> (adds_fresh empty_buffer ops \<longrightarrow> Empty (run_ops ops) = (NumDocs (run_ops ops) = 0))"
proof -
  obtain k where k: "k \<le> length ops" "counted k (run_ops ops)"
    using counted_run_ops by blast
  have zero: "((of_nat n :: 64 word) = 0) = (n = 0)" if "n \<le> length ops" for n
  proof -
    have "n < 2 ^ 64" using that assms by simp
    then have "2 ^ 64 dvd n \<longrightarrow> n = 0" by (auto dest: dvd_imp_le)
    then show ?thesis by (auto simp: word_of_nat_eq_0_iff)
  qed
  have one: "Empty (run_ops ops)" if z: "NumDocs (run_ops ops) = 0"
  proof -
    have "(of_nat k :: 64 word) = 0" using k(2) z by (simp add: counted_def NumDocs_def)
    then have "k = 0" using zero[OF k(1)] by simp
    then have "card (DocID ` set (items (run_ops ops))) = 0" using k(2) by (simp add: counted_def)
    then show ?thesis by (simp add: Empty_def)
  qed
  have two: "Empty (run_ops ops) = (NumDocs (run_ops ops) = 0)" if f: "adds_fresh empty_buffer ops"
  proof -
    have "counted_exactly 0 empty_buffer"
      by (simp add: counted_exactly_def empty_buffer_def)
    from counted_exactly_foldl[OF this f] obtain k' where
      k': "k' \<le> length ops" "counted_exactly k' (run_ops ops)"
      by (auto simp: run_ops_def)
    have "(NumDocs (run_ops ops) = 0) = (k' = 0)"
      using k'(2) zero[OF k'(1)] by (simp add: counted_exactly_def NumDocs_def)
    moreover have "Empty (run_ops ops) = (k' = 0)"
      using k'(2) by (auto simp: counted_exactly_def Empty_def)
    ultimately show ?thesis by simp
  qed
  show ?thesis using one two by blast
qed

theorem no_documents_implies_empty_witness:
  "length [OpAdd 5 [1], OpAdd 6 [1, 2], OpDelete 5] < (2::nat) ^ 64
   \<and> adds_fresh empty_buffer [OpAdd 5 [1], OpAdd 6 [1, 2], OpDelete 5]
   \<and> \<not> Empty (run_ops [OpAdd 5 [1], OpAdd 6 [1, 2], OpDelete 5])
   \<and> NumDocs (run_ops [OpAdd 5 [1], OpAdd 6 [1, 2], OpDelete 5]) \<noteq> 0
   \<and> length [OpAdd 5 [1], OpDelete 5] < (2::nat) ^ 64
   \<and> NumDocs (run_ops [OpAdd 5 [1], OpDelete 5]) = 0
   \<and> Empty (run_ops [OpAdd 5 [1], OpDelete 5])"
proof -
  have h: "length [OpAdd 5 [1], OpAdd 6 [1, 2], OpDelete 5] < (2::nat) ^ 64"
    and h': "length [OpAdd 5 [1], OpDelete 5] < (2::nat) ^ 64"
    by simp_all
  have f: "adds_fresh empty_buffer [OpAdd 5 [1], OpAdd 6 [1, 2], OpDelete 5]"
    by code_simp
  have ne: "\<not> Empty (run_ops [OpAdd 5 [1], OpAdd 6 [1, 2], OpDelete 5])"
    by code_simp
  have z: "NumDocs (run_ops [OpAdd 5 [1], OpDelete 5]) = 0"
    by code_simp
  show ?thesis
    using h h' f ne z no_documents_implies_empty[OF h] no_documents_implies_empty[OF h']
    by blast
qed

text \<open>
  The claim as stated fails after \<open>Add(5, [])\<close>: the buffer is empty and counts one
  document.
\<close>

theorem empty_with_documents_counterexample:
  "Empty (run_ops [OpAdd 5 []]) \<and> NumDocs (run_ops [OpAdd 5 []]) = 1"
  by code_simp

text \<open>
  Claim C6: for any non-empty ItemBuffer, draining the reader that \<open>Reader()\<close> returns
  yields postings that are non-decreasing in the order (term, docID). The drain ends
  without an error, and what it yields is the buffer's items rearranged.
\<close>

theorem reader_drains_sorted:
  assumes "\<not> Empty ib"
  shows "\<exists>out. ReadAllItems (snd (Reader ib)) = Inr (out, None)
           \<and> sorted_wrt item_le out \<and> mset out = mset (items ib)"
  by (simp add: Reader_def Let_def ReadAllItems_buffer_reader sorted_sort_Slice mset_sort_Slice)

theorem reader_drains_sorted_witness:
  "\<not> Empty (Add (Add empty_buffer 20 [3, 2]) 10 [2, 1])
   \<and> ReadAllItems (snd (Reader (Add (Add empty_buffer 20 [3, 2]) 10 [2, 1]))) =
       Inr ([\<lparr>Term = 1, DocID = 10\<rparr>, \<lparr>Term = 2, DocID = 10\<rparr>,
             \<lparr>Term = 2, DocID = 20\<rparr>, \<lparr>Term = 3, DocID = 20\<rparr>], None)
   \<and> (\<exists>out. ReadAllItems (snd (Reader (Add (Add empty_buffer 20 [3, 2]) 10 [2, 1]))) = Inr (out, None)
           \<and> sorted_wrt item_le out
           \<and> mset out = mset (items (Add (Add empty_buffer 20 [3, 2]) 10 [2, 1])))"
proof -
  have ne: "\<not> Empty (Add (Add empty_buffer 20 [3, 2]) 10 [2, 1])"
    by code_simp
  have ev: "ReadAllItems (snd (Reader (Add (Add empty_buffer 20 [3, 2]) 10 [2, 1]))) =
       Inr ([\<lparr>Term = 1, DocID = 10\<rparr>, \<lparr>Term = 2, DocID = 10\<rparr>,
             \<lparr>Term = 2, DocID = 20\<rparr>, \<lparr>Term = 3, DocID = 20\<rparr>], None)"
    by code_simp
  show ?thesis using ne ev reader_drains_sorted[OF ne] by blast
qed

text \<open>
  Claim C7: for every byte array, \<open>ValidateFingerprint\<close> returns true if and only if
  \<open>ParseFingerprint\<close> returns a fingerprint and no error; validation fails exactly
  where decoding fails, with the same error, and where one panics so does the other.
\<close>

theorem validate_iff_parse:
  "((ValidateFingerprint data = Inr True) = (\<exists>fp. ParseFingerprint data = Inr (Some fp, None)))
   \<and> ((ValidateFingerprint data = Inr False) = (\<exists>err. ParseFingerprint data = Inr (None, Some err)))
   \<and> ((\<exists>fp. unpackFingerprint data None = Inr (Some err, fp)) = (ParseFingerprint data = Inr (None, Some err)))
   \<and> ((ValidateFingerprint data = Inl p) = (ParseFingerprint data = Inl p))"
proof (cases "decode_codes data")
  case (Inl q)
  then show ?thesis
    by (simp add: ValidateFingerprint_def ParseFingerprint_def unpackFingerprint_decode_codes)
next
  case (Inr res)
  show ?thesis
  proof (cases res)
    case (Inl e)
    then show ?thesis using Inr
      by (auto simp: ValidateFingerprint_def ParseFingerprint_def unpackFingerprint_decode_codes)
  next
    case (Inr ok)
    obtain version tv bits' where ok: "ok = (version, tv, bits')"
      by (cases ok) auto
    have dc: "decode_codes data = Inr (Inr (version, tv, bits'))"
      using \<open>decode_codes data = Inr res\<close> Inr ok by simp
    from decode_codes_ok[OF dc]
    have "bits' \<noteq> [] \<longrightarrow> last bits' = 0" "0 + count_list bits' 0 \<le> length (replicate tv (0::uint32))"
      by simp_all
    from decode_hashes_ok[OF this, of 0]
    obtain hs where hs: "decode_hashes bits' (replicate tv 0) 0 0 = Inr hs"
      by blast
    show ?thesis using dc hs
      by (simp add: ValidateFingerprint_def ParseFingerprint_def unpackFingerprint_decode_codes)
  qed
qed

theorem validate_iff_parse_witness:
  "ValidateFingerprint [0x01, 0x00, 0x00, 0x01, 0x20] = Inr True
   \<and> (\<exists>fp. ParseFingerprint [0x01, 0x00, 0x00, 0x01, 0x20] = Inr (Some fp, None))
   \<and> ValidateFingerprint [0x01, 0x00, 0x00, 0x01, 0xE0] = Inr False
   \<and> (\<exists>err. ParseFingerprint [0x01, 0x00, 0x00, 0x01, 0xE0] = Inr (None, Some err))"
proof -
  have t: "ValidateFingerprint [0x01, 0x00, 0x00, 0x01, 0x20] = Inr True"
    by code_simp
  have f: "ValidateFingerprint [0x01, 0x00, 0x00, 0x01, 0xE0] = Inr False"
    by code_simp
  show ?thesis
    using t f validate_iff_parse[of "[0x01, 0x00, 0x00, 0x01, 0x20]"]
      validate_iff_parse[of "[0x01, 0x00, 0x00, 0x01, 0xE0]"]
    by blast
qed

text \<open>
  Claim C8, as amended: every error that \<open>ParseFingerprint\<close> returns has the kind
  InvalidFingerprint, and so has the error of \<open>DecodeFingerprintString\<close> and of
  \<open>ParseFingerprintString\<close> on the empty string. On any other text that is malformed
  base64, \<open>DecodeFingerprintString\<close> returns the library's \<open>CorruptInputError\<close> and
  \<open>ParseFingerprintString\<close> returns it wrapped, its kind still
  \<open>CorruptInputError\<close>; on text that is well-formed base64 the decoding succeeds and
  \<open>ParseFingerprintString\<close> does what \<open>ParseFingerprint\<close> does on the decoded bytes.
  So an error that \<open>ParseFingerprintString\<close> returns has the kind InvalidFingerprint
  unless the text is malformed base64.
\<close>

theorem decode_failures_kind:
  "(ParseFingerprint data = Inr (fp, Some err) \<longrightarrow> Cause err = ErrInvalidFingerprint)
   \<and> DecodeFingerprintString [] = ([], Some ErrInvalidFingerprint)
   \<and> ParseFingerprintString [] = Inr (None, Some (Wrap ErrInvalidFingerprint ''decoding failed''))
   \<and> (str \<noteq> [] \<and> malformed_base64 str \<longrightarrow>
        snd (DecodeFingerprintString str) = Some CorruptInputError
        \<and> ParseFingerprintString str = Inr (None, Some (Wrap CorruptInputError ''decoding failed'')))
   \<and> (str \<noteq> [] \<and> \<not> malformed_base64 str \<longrightarrow>
        snd (DecodeFingerprintString str) = None
        \<and> ParseFingerprintString str = ParseFingerprint (fst (DecodeFingerprintString str)))
   \<and> (ParseFingerprintString str = Inr (fp, Some err) \<longrightarrow>
        Cause err = ErrInvalidFingerprint
        \<or> (Cause err = CorruptInputError \<and> str \<noteq> [] \<and> malformed_base64 str))"
proof -
  have empty: "DecodeFingerprintString [] = ([], Some ErrInvalidFingerprint)"
    "ParseFingerprintString [] = Inr (None, Some (Wrap ErrInvalidFingerprint ''decoding failed''))"
    by (simp_all add: DecodeFingerprintString_def ParseFingerprintString_def)
  have bad: "snd (DecodeFingerprintString str) = Some CorruptInputError
        \<and> ParseFingerprintString str = Inr (None, Some (Wrap CorruptInputError ''decoding failed''))"
    if "str \<noteq> []" "malformed_base64 str"
  proof -
    have "snd (DecodeFingerprintString str) = Some CorruptInputError"
      using that DecodeString_error[of str] by (simp add: DecodeFingerprintString_def)
    then show ?thesis
      by (cases "DecodeFingerprintString str") (simp add: ParseFingerprintString_def)
  qed
  have good: "snd (DecodeFingerprintString str) = None
        \<and> ParseFingerprintString str = ParseFingerprint (fst (DecodeFingerprintString str))"
    if "str \<noteq> []" "\<not> malformed_base64 str"
  proof -
    have "snd (DecodeFingerprintString str) = None"
      using that DecodeString_error[of str] by (simp add: DecodeFingerprintString_def)
    then show ?thesis
      by (cases "DecodeFingerprintString str") (simp add: ParseFingerprintString_def)
  qed
  have kind: "Cause err = ErrInvalidFingerprint
        \<or> (Cause err = CorruptInputError \<and> str \<noteq> [] \<and> malformed_base64 str)"
    if p: "ParseFingerprintString str = Inr (fp, Some err)"
  proof (cases "str = []")
    case True
    then show ?thesis using p empty(2) by auto
  next
    case ne: False
    show ?thesis
    proof (cases "malformed_base64 str")
      case True
      then show ?thesis using bad[OF ne True] p ne by auto
    next
      case False
      then have "ParseFingerprint (fst (DecodeFingerprintString str)) = Inr (fp, Some err)"
        using good[OF ne False] p by simp
      then show ?thesis by (auto dest: ParseFingerprint_error)
    qed
  qed
  show ?thesis
    using empty bad good kind ParseFingerprint_error[of data fp err] by blast
qed

theorem decode_failures_kind_witness:
  "ParseFingerprint [0x01, 0x00, 0x00] =
     Inr (None, Some (Wrap ErrInvalidFingerprint ''encoded fingerprint is less than 4 bytes''))
   \<and> Cause (Wrap ErrInvalidFingerprint ''encoded fingerprint is less than 4 bytes'') = ErrInvalidFingerprint
   \<and> ''AQAAASA='' \<noteq> [] \<and> malformed_base64 ''AQAAASA=''
   \<and> snd (DecodeFingerprintString ''AQAAASA='') = Some CorruptInputError
   \<and> ParseFingerprintString ''AQAAASA='' = Inr (None, Some (Wrap CorruptInputError ''decoding failed''))
   \<and> ''AQAAAeA'' \<noteq> [] \<and> \<not> malformed_base64 ''AQAAAeA''
   \<and> DecodeFingerprintString ''AQAAAeA'' = ([0x01, 0x00, 0x00, 0x01, 0xE0], None)
   \<and> ParseFingerprintString ''AQAAAeA'' = ParseFingerprint [0x01, 0x00, 0x00, 0x01, 0xE0]
   \<and> ParseFingerprintString ''AQAAAeA'' =
     Inr (None, Some (Wrap ErrInvalidFingerprint ''not enough data to decode exceptional bits''))
   \<and> Cause (Wrap ErrInvalidFingerprint ''not enough data to decode exceptional bits'') = ErrInvalidFingerprint"
proof -
  have a: "ParseFingerprint [0x01, 0x00, 0x00] =
     Inr (None, Some (Wrap ErrInvalidFingerprint ''encoded fingerprint is less than 4 bytes''))"
    by code_simp
  have m: "''AQAAASA='' \<noteq> [] \<and> malformed_base64 ''AQAAASA=''"
    by code_simp
  have w: "''AQAAAeA'' \<noteq> [] \<and> \<not> malformed_base64 ''AQAAAeA''"
    by code_simp
  have d: "DecodeFingerprintString ''AQAAAeA'' = ([0x01, 0x00, 0x00, 0x01, 0xE0], None)"
    by code_simp
  have b: "ParseFingerprint [0x01, 0x00, 0x00, 0x01, 0xE0] =
     Inr (None, Some (Wrap ErrInvalidFingerprint ''not enough data to decode exceptional bits''))"
    by code_simp
  show ?thesis
    using a m w d b
      decode_failures_kind[of "[0x01, 0x00, 0x00]" None
        "Wrap ErrInvalidFingerprint ''encoded fingerprint is less than 4 bytes''" "''AQAAASA=''"]
      decode_failures_kind[of "[0x01, 0x00, 0x00, 0x01, 0xE0]" None
        "Wrap ErrInvalidFingerprint ''not enough data to decode exceptional bits''" "''AQAAAeA''"]
    by simp
qed

text \<open>
  The claim as stated fails on malformed base64 text: \<open>=\<close> is not a character of the
  alphabet, the error is the library's (returned with the three bytes decoded before
  it), and wrapping it with a message does not change its cause.
\<close>

theorem corrupt_base64_counterexample:
  "DecodeFingerprintString ''AQAAASA='' = ([0x01, 0x00, 0x00], Some CorruptInputError)
   \<and> ParseFingerprintString ''AQAAASA='' = Inr (None, Some (Wrap CorruptInputError ''decoding failed''))
   \<and> Cause (Wrap CorruptInputError ''decoding failed'') = CorruptInputError
   \<and> CorruptInputError \<noteq> ErrInvalidFingerprint"
  by code_simp

text \<open>
  Claim C9, as amended: when one side's source reader of a pairwise merge node fails
  with an error other than end-of-stream, \<open>ReadBlock\<close> returns that error at once, with
  no items. If side 1 fails, side 2's pending block and source reader are unchanged. If
  side 2 fails, side 1 is unchanged when it was not due for a refill (its pending block
  non-empty, or its reader nil); otherwise side 1 has been refilled first: its pending
  block is the block just read, its reader has advanced, and is nil if it signalled
  end-of-stream.
\<close>

theorem read_failure_frame:
  "(block1 = [] \<and> reader1 \<noteq> nilReader
      \<and> ReadBlock reader1 = Inr ((blk, Some err), rd) \<and> err \<noteq> EOF
     \<longrightarrow> ReadBlock (multiItemReader reader1 reader2 block1 block2) =
           Inr (([], Some err), multiItemReader rd reader2 blk block2))
   \<and> ((block1 \<noteq> [] \<or> reader1 = nilReader) \<and> block2 = [] \<and> reader2 \<noteq> nilReader
      \<and> ReadBlock reader2 = Inr ((blk, Some err), rd) \<and> err \<noteq> EOF
     \<longrightarrow> ReadBlock (multiItemReader reader1 reader2 block1 block2) =
           Inr (([], Some err), multiItemReader reader1 rd block1 blk))
   \<and> (block1 = [] \<and> reader1 \<noteq> nilReader
      \<and> ReadBlock reader1 = Inr ((blk1, e1), rd1) \<and> (e1 = None \<or> e1 = Some EOF)
      \<and> block2 = [] \<and> reader2 \<noteq> nilReader
      \<and> ReadBlock reader2 = Inr ((blk, Some err), rd) \<and> err \<noteq> EOF
     \<longrightarrow> ReadBlock (multiItemReader reader1 reader2 block1 block2) =
           Inr (([], Some err),
                multiItemReader (if e1 = None then rd1 else nilReader) rd blk1 blk))"
  by auto

theorem read_failure_frame_witness:
  "ReadBlock (multiItemReader (externalReader [([], Some (ReadFailure ''disk''))])
                              (externalReader [([\<lparr>Term = 9, DocID = 9\<rparr>], None)])
                              [] [\<lparr>Term = 2, DocID = 4\<rparr>]) =
     Inr (([], Some (ReadFailure ''disk'')),
          multiItemReader (externalReader []) (externalReader [([\<lparr>Term = 9, DocID = 9\<rparr>], None)])
                          [] [\<lparr>Term = 2, DocID = 4\<rparr>])
   \<and> ReadBlock (multiItemReader (externalReader [([\<lparr>Term = 9, DocID = 9\<rparr>], None)])
                              (externalReader [([], Some (ReadFailure ''disk''))])
                              [\<lparr>Term = 2, DocID = 4\<rparr>] []) =
     Inr (([], Some (ReadFailure ''disk'')),
          multiItemReader (externalReader [([\<lparr>Term = 9, DocID = 9\<rparr>], None)]) (externalReader [])
                          [\<lparr>Term = 2, DocID = 4\<rparr>] [])
   \<and> ReadBlock (multiItemReader (externalReader [([\<lparr>Term = 9, DocID = 9\<rparr>], None)])
                              (externalReader [([], Some (ReadFailure ''disk''))])
                              [] []) =
     Inr (([], Some (ReadFailure ''disk'')),
          multiItemReader (externalReader []) (externalReader [])
                          [\<lparr>Term = 9, DocID = 9\<rparr>] [])"
  using
    read_failure_frame[of "[]" "externalReader [([], Some (ReadFailure ''disk''))]" "[]"
      "ReadFailure ''disk''" "externalReader []"
      "externalReader [([\<lparr>Term = 9, DocID = 9\<rparr>], None)]" "[\<lparr>Term = 2, DocID = 4\<rparr>]"]
    read_failure_frame[of "[\<lparr>Term = 2, DocID = 4\<rparr>]"
      "externalReader [([\<lparr>Term = 9, DocID = 9\<rparr>], None)]" "[]"
      "ReadFailure ''disk''" "externalReader []"
      "externalReader [([], Some (ReadFailure ''disk''))]" "[]"]
    read_failure_frame[of "[]" "externalReader [([\<lparr>Term = 9, DocID = 9\<rparr>], None)]" "[]"
      "ReadFailure ''disk''" "externalReader []"
      "externalReader [([], Some (ReadFailure ''disk''))]" "[]"
      "[\<lparr>Term = 9, DocID = 9\<rparr>]" None "externalReader []"]
  by simp

text \<open>
  The claim as stated fails when side 2 fails in a call that first refilled side 1:
  in the first call on a fresh node, side 1's reader is replaced by nil when its
  buffer is empty, and side 1's pending block changes from empty to the buffer's item
  otherwise.
\<close>

theorem read_failure_changes_other_side_counterexample:
  "ReadBlock (MergeItemReaders [snd (Reader empty_buffer),
                                externalReader [([], Some (ReadFailure ''disk''))]]) =
     Inr (([], Some (ReadFailure ''disk'')),
          multiItemReader nilReader (externalReader []) [] [])
   \<and> MergeItemReaders [snd (Reader empty_buffer),
                        externalReader [([], Some (ReadFailure ''disk''))]] =
       multiItemReader (itemBufferReader empty_buffer 0)
                       (externalReader [([], Some (ReadFailure ''disk''))]) [] []
   \<and> ReadBlock (MergeItemReaders [snd (Reader (Add empty_buffer 7 [3])),
                                externalReader [([], Some (ReadFailure ''disk''))]]) =
     Inr (([], Some (ReadFailure ''disk'')),
          multiItemReader (itemBufferReader (Add empty_buffer 7 [3]) 1) (externalReader [])
                          [\<lparr>Term = 3, DocID = 7\<rparr>] [])"
  by code_simp

text \<open>
  Claim C10 (the decoder is total: for every byte array it returns a fingerprint or an
  error): the code does otherwise. The header below declares one value; the three
  bytes after it hold eight codes, the eighth being the terminating zero and five of
  them 7. The offset of the exceptional codes is computed as
  \<open>4 + (8 * 3 + 8) / 8 = 8\<close>, one past the seven bytes of the input, and
  \<open>data[offset:]\<close> panics, in validation and in decoding alike.
\<close>

theorem unpackFingerprint_slice_panic:
  "unpackFingerprint [0x01, 0x00, 0x00, 0x01, 0xFF, 0xFF, 0x18] None = Inl SliceBoundsOutOfRange
   \<and> ParseFingerprint [0x01, 0x00, 0x00, 0x01, 0xFF, 0xFF, 0x18] = Inl SliceBoundsOutOfRange
   \<and> ValidateFingerprint [0x01, 0x00, 0x00, 0x01, 0xFF, 0xFF, 0x18] = Inl SliceBoundsOutOfRange"
  by code_simp

end
